theory Spec2Isabelle
  imports Main "HOL-Library.Multiset"
begin

section \<open>The game server of \<^verbatim>\<open>server/server_main.py\<close>\<close>

text \<open>
  A shallow embedding of the game server: the classes \<^verbatim>\<open>Player\<close>, \<^verbatim>\<open>PlayerList\<close>,
  \<^verbatim>\<open>GameState\<close>, \<^verbatim>\<open>GameServer\<close> and the state-changing commands of \<^verbatim>\<open>CLI\<close>.
  Mutation is explicit state passing over the record \<open>server\<close>; every exception the
  Python can raise is a value \<open>Inl e\<close>; traffic on the sockets is an output trace.
\<close>

subsection \<open>Text: \<^verbatim>\<open>str\<close>, \<^verbatim>\<open>join\<close>, \<^verbatim>\<open>split\<close>, \<^verbatim>\<open>isnumeric\<close>, \<^verbatim>\<open>int\<close>\<close>

text \<open>
  A Python \<^verbatim>\<open>str\<close> is a sequence of Unicode code points, so a text is a list of natural
  numbers. \<open>lit\<close> gives the code points of an ASCII literal of the source.
\<close>

type_synonym str = "nat list"

definition lit :: "string \<Rightarrow> str" where
  "lit s = map of_char s"

declare lit_def [simp]

definition digit_char :: "nat \<Rightarrow> nat" where
  "digit_char d = 48 + d"

fun str_nat :: "nat \<Rightarrow> str" where
  "str_nat n = (if n < 10 then [digit_char n] else str_nat (n div 10) @ [digit_char (n mod 10)])"

declare str_nat.simps [simp del]

definition str_int :: "int \<Rightarrow> str" where
  "str_int i = (if i < 0 then lit ''-'' @ str_nat (nat (- i)) else str_nat (nat i))"

text \<open>\<^verbatim>\<open>str(x)\<close> of a card attribute, which is \<^verbatim>\<open>None\<close> until a card is played.\<close>

definition str_opt :: "int option \<Rightarrow> str" where
  "str_opt v = (case v of None \<Rightarrow> lit ''None'' | Some i \<Rightarrow> str_int i)"

fun join :: "str \<Rightarrow> str list \<Rightarrow> str" where
  "join sep [] = []"
| "join sep [x] = x"
| "join sep (x # y # ys) = x @ sep @ join sep (y # ys)"

text \<open>
  The white space of \<^verbatim>\<open>str.split()\<close>: U+0009 to U+000D, U+001C to U+0020, U+0085, U+00A0,
  U+1680, U+2000 to U+200A, U+2028, U+2029, U+202F, U+205F and U+3000.
\<close>

definition isspace :: "nat \<Rightarrow> bool" where
  "isspace c =
     ((9 \<le> c \<and> c \<le> 13) \<or> (28 \<le> c \<and> c \<le> 32) \<or> c = 133 \<or> c = 160 \<or> c = 5760
      \<or> (8192 \<le> c \<and> c \<le> 8202) \<or> c = 8232 \<or> c = 8233 \<or> c = 8239 \<or> c = 8287 \<or> c = 12288)"

text \<open>\<^verbatim>\<open>s.split()\<close>: the maximal runs of characters that are not white space.\<close>

fun split_acc :: "str \<Rightarrow> str \<Rightarrow> str list" where
  "split_acc w [] = (if w = [] then [] else [w])"
| "split_acc w (c # cs) =
     (if isspace c then (if w = [] then split_acc [] cs else w # split_acc [] cs)
      else split_acc (w @ [c]) cs)"

definition str_split :: "str \<Rightarrow> str list" where
  "str_split s = split_acc [] s"

text \<open>
  What \<^verbatim>\<open>isnumeric\<close> and \<^verbatim>\<open>int\<close> take from the interpreter, which is not part of the
  repository and so is a parameter: \<open>numeric c\<close> says that the code point \<open>c\<close> has a
  numeric value in the Unicode database (the digits, and also superscripts, fractions,
  letter numerals and others); \<open>decimal c\<close> is the value of \<open>c\<close> if it is a decimal digit
  of some script (category Nd), and \<^verbatim>\<open>None\<close> for every other character, no sign,
  underscore or white space being numeric; \<open>max_str_digits\<close> is the limit that
  \<^verbatim>\<open>sys.get_int_max_str_digits()\<close> reports, 0 where there is none.
\<close>

record python =
  numeric :: "nat \<Rightarrow> bool"
  decimal :: "nat \<Rightarrow> nat option"
  max_str_digits :: nat

datatype py_error = AttributeError | KeyError | IndexError | ValueError | OSError

text \<open>\<^verbatim>\<open>s.isnumeric()\<close>: \<open>s\<close> is not empty and all its characters are numeric.\<close>

definition isnumeric :: "python \<Rightarrow> str \<Rightarrow> bool" where
  "isnumeric py s = (s \<noteq> [] \<and> list_all (numeric py) s)"

text \<open>
  \<^verbatim>\<open>int(s)\<close> for a string \<open>s\<close> of numeric characters, which is what the source calls it on:
  the value in base 10 when all characters are decimal digits and there are not more of
  them than the limit allows, and \<^verbatim>\<open>ValueError\<close> otherwise.
\<close>

definition digit_value :: "python \<Rightarrow> nat \<Rightarrow> int" where
  "digit_value py c = (case decimal py c of None \<Rightarrow> 0 | Some d \<Rightarrow> int d)"

definition py_int :: "python \<Rightarrow> str \<Rightarrow> py_error + int" where
  "py_int py s =
     (if s = [] \<or> \<not> list_all (\<lambda>c. decimal py c \<noteq> None) s then Inl ValueError
      else if 640 < length s \<and> 0 < max_str_digits py \<and> max_str_digits py < length s
      then Inl ValueError
      else Inr (foldl (\<lambda>a c. 10 * a + digit_value py c) 0 s))"

subsection \<open>Data\<close>

text \<open>\<^verbatim>\<open>Player.status\<close>, \<^verbatim>\<open>GameState.state\<close> and \<^verbatim>\<open>Player.state\<close> (strings in the source).\<close>

datatype role = MASTER | PLAYER

datatype phase = PLAYER_CONN | GAME | ERROR | SHUTDOWN

datatype pstate =
    VER_CHECK | VER_WAIT | START_WAIT | BEGIN_SYNC | READY_WAIT | TURN_SYNC | WAIT_ASSOC
  | WAIT_SELF_CARD | SELF_SYNC | WAIT_VOTE | VOTE_SYNC | WAIT_NEXT_TURN | SYNC_NEXT_TURN

definition str_role :: "role \<Rightarrow> str" where
  "str_role r = (case r of MASTER \<Rightarrow> lit ''MASTER'' | PLAYER \<Rightarrow> lit ''PLAYER'')"

text \<open>
  Modelled from the spec: the class \<^verbatim>\<open>connection\<close> of \<^verbatim>\<open>server/connection.py\<close>, which is
  not among the sources. Section 4.1: a connection wraps one socket, \<^verbatim>\<open>send\<close> writes one
  message, \<^verbatim>\<open>close\<close> releases the socket, and an I/O error is not raised but recorded in
  the status flag. Sockets are numbered; what is written and closed is recorded in the
  trace \<open>wire\<close> of the server.
\<close>

record connection =
  csock :: nat
  cstatus :: bool

datatype io_event = Sent nat str | Shutdown nat | Closed nat

definition new_connection :: "nat \<Rightarrow> connection" where
  "new_connection sock = \<lparr>csock = sock, cstatus = True\<rparr>"

definition conn_send :: "connection \<Rightarrow> str \<Rightarrow> io_event list \<Rightarrow> io_event list" where
  "conn_send c m io = io @ [Sent (csock c) m]"

definition conn_close :: "connection \<Rightarrow> io_event list \<Rightarrow> io_event list" where
  "conn_close c io = io @ [Closed (csock c)]"

text \<open>
  The attributes of \<^verbatim>\<open>Player\<close>. A player object is one element of the roster; outside the
  roster (\<^verbatim>\<open>current_player\<close>, \<^verbatim>\<open>sockets\<close>) an object is referred to by its \<open>number\<close>, which
  \<^verbatim>\<open>add_player\<close> gives to one object only and \<^verbatim>\<open>__hash__\<close> returns. So \<^verbatim>\<open>p is q\<close> is
  \<open>number p = number q\<close>.
\<close>

record player =
  player_socket :: nat
  status :: role
  state :: pstate
  conn :: "connection option"
  valid :: bool
  name :: str
  score :: int
  get_broadcast :: bool
  cards :: "int list"
  number :: nat
  current_card :: "int option"
  selected_card :: "int option"
  buffer :: "str list"
  has_buffer :: bool
  has_turn :: bool

text \<open>
  The objects of one running server, flattened: \<^verbatim>\<open>PlayerList\<close> (\<open>players\<close>, \<open>sockets\<close>,
  \<open>have_master\<close>, \<open>seq_number\<close>), \<^verbatim>\<open>GameState\<close> (\<open>game_state\<close> is its attribute \<^verbatim>\<open>state\<close>,
  \<open>card_set\<close>), \<^verbatim>\<open>Resources\<close> (\<open>res_name\<close>, \<open>res_link\<close>, \<open>configuration\<close>, which is \<^verbatim>\<open>None\<close>
  when \<^verbatim>\<open>sets.json\<close> could not be loaded), \<^verbatim>\<open>GameServer\<close> (\<open>server_cards\<close> is its attribute
  \<^verbatim>\<open>cards\<close>, \<open>current_player\<close>) and the trace \<open>wire\<close> of what was done to the sockets.
\<close>

record server =
  players :: "player list"
  sockets :: "nat \<rightharpoonup> nat"
  have_master :: bool
  seq_number :: nat
  game_state :: phase
  card_set :: str
  res_name :: str
  res_link :: str
  configuration :: "(str \<rightharpoonup> int) option"
  server_cards :: "int list"
  current_player :: "nat option"
  wire :: "io_event list"

subsection \<open>\<^verbatim>\<open>Player\<close>: sending, stopping, verifying\<close>

text \<open>\<^verbatim>\<open>Player.send_message\<close>: put a message into the output buffer.\<close>

definition send_message :: "str \<Rightarrow> player \<Rightarrow> player" where
  "send_message data p = p\<lparr>buffer := buffer p @ [data], has_buffer := True\<rparr>"

text \<open>
  \<^verbatim>\<open>Player.push_buffer\<close>: send the queued messages, oldest first. With no connection
  (\<^verbatim>\<open>conn is None\<close>) the first \<^verbatim>\<open>self.conn.send\<close> raises.
\<close>

fun send_all :: "connection \<Rightarrow> str list \<Rightarrow> io_event list \<Rightarrow> io_event list" where
  "send_all c [] io = io"
| "send_all c (m # ms) io = send_all c ms (conn_send c m io)"

definition push_buffer :: "player \<Rightarrow> io_event list \<Rightarrow> py_error + (player \<times> io_event list)" where
  "push_buffer p io =
     (if buffer p = [] then Inr (p\<lparr>has_buffer := False\<rparr>, io)
      else (case conn p of
              None \<Rightarrow> Inl AttributeError
            | Some c \<Rightarrow> Inr (p\<lparr>buffer := [], has_buffer := False\<rparr>, send_all c (buffer p) io)))"

text \<open>\<^verbatim>\<open>Player.stop\<close>: disconnect the player.\<close>

definition stop :: "player \<Rightarrow> io_event list \<Rightarrow> player \<times> io_event list" where
  "stop p io =
     (case conn p of
        None \<Rightarrow> (p\<lparr>valid := False\<rparr>, io)
      | Some c \<Rightarrow> (p\<lparr>valid := False, conn := None\<rparr>, conn_close c io))"

text \<open>\<^verbatim>\<open>Player.verify\<close>: \<^verbatim>\<open>self.valid and self.conn.status\<close>.\<close>

definition verify :: "player \<Rightarrow> py_error + bool" where
  "verify p =
     (if valid p then (case conn p of None \<Rightarrow> Inl AttributeError | Some c \<Rightarrow> Inr (cstatus c))
      else Inr False)"

subsection \<open>\<^verbatim>\<open>PlayerList\<close>\<close>

text \<open>\<^verbatim>\<open>__iter__\<close> yields the valid players, in join order; \<^verbatim>\<open>__len__\<close> counts them.\<close>

definition iter :: "player list \<Rightarrow> player list" where
  "iter ps = filter valid ps"

definition len :: "player list \<Rightarrow> nat" where
  "len ps = length (iter ps)"

text \<open>
  A loop \<^verbatim>\<open>for player in plist: body(player)\<close> whose body changes attributes of
  \<^verbatim>\<open>player\<close> only: the body runs on the valid players and leaves the others as they are.
\<close>

definition for_each :: "(player \<Rightarrow> player) \<Rightarrow> player list \<Rightarrow> player list" where
  "for_each body ps = map (\<lambda>p. if valid p then body p else p) ps"

text \<open>
  \<^verbatim>\<open>PlayerList.broadcast\<close>. \<open>info\<close> is the player the message is about; the Python reads
  \<^verbatim>\<open>info.number\<close> for the template \<^verbatim>\<open>#SELF\<close> and raises when \<^verbatim>\<open>info\<close> is \<^verbatim>\<open>None\<close>.
\<close>

definition player_lst :: "player list \<Rightarrow> str" where
  "player_lst ps =
     join (lit '','') (map (\<lambda>i. str_nat (number i) @ lit '';'' @ name i) (filter get_broadcast (iter ps)))"

definition deliver :: "str \<Rightarrow> player list \<Rightarrow> player list" where
  "deliver data ps = for_each (\<lambda>i. if get_broadcast i then send_message data i else i) ps"

definition broadcast :: "str \<Rightarrow> player option \<Rightarrow> player list \<Rightarrow> py_error + player list" where
  "broadcast data info ps =
     (let data1 = (if data = lit ''#PLAYER_LIST'' then lit ''PLAYER_LIST '' @ player_lst ps else data)
      in if data1 = lit ''#SELF''
         then (case info of
                 None \<Rightarrow> Inl AttributeError
               | Some p \<Rightarrow> Inr (deliver (lit ''PLAYER '' @ str_nat (number p)) ps))
         else Inr (deliver data1 ps))"

text \<open>
  \<^verbatim>\<open>PlayerList.check\<close>. The loop runs over the list itself (valid or not) and leaves at
  the first player that does not verify: \<open>first_dead\<close> is the position of that player,
  or an error when \<^verbatim>\<open>verify\<close> raises before one is found.
\<close>

fun first_dead :: "player list \<Rightarrow> nat \<Rightarrow> py_error + nat option" where
  "first_dead [] k = Inr None"
| "first_dead (p # ps) k =
     (case verify p of
        Inl e \<Rightarrow> Inl e
      | Inr ok \<Rightarrow> if \<not> ok then Inr (Some k) else first_dead ps (Suc k))"

definition remove_at :: "nat \<Rightarrow> 'a list \<Rightarrow> 'a list" where
  "remove_at k xs = take k xs @ drop (Suc k) xs"

definition check :: "server \<Rightarrow> py_error + server" where
  "check s =
     (case first_dead (players s) 0 of
        Inl e \<Rightarrow> Inl e
      | Inr None \<Rightarrow> Inr s
      | Inr (Some k) \<Rightarrow>
          (case push_buffer (players s ! k) (wire s) of
             Inl e \<Rightarrow> Inl e
           | Inr (p1, io1) \<Rightarrow>
               (case stop p1 io1 of (p2, io2) \<Rightarrow>
                 (case sockets s (player_socket p2) of
                    None \<Rightarrow> Inl KeyError
                  | Some n \<Rightarrow>
                      (let st = (if status p2 = MASTER \<and> game_state s = PLAYER_CONN
                                 then ERROR else game_state s);
                           ps = remove_at k (players s);
                           s1 = s\<lparr>sockets := (sockets s)(player_socket p2 := None),
                                  game_state := st, wire := io2\<rparr>
                       in if st = PLAYER_CONN
                          then (case broadcast (lit ''#PLAYER_LIST'') None ps of
                                  Inl e \<Rightarrow> Inl e
                                | Inr ps' \<Rightarrow> Inr (s1\<lparr>players := ps'\<rparr>))
                          else Inr (s1\<lparr>players := ps\<rparr>))))))"

text \<open>
  \<^verbatim>\<open>PlayerList.next_player\<close>. \<open>index_of\<close> is the first loop (the position of the given
  object, 0 when it is not in the list or is \<^verbatim>\<open>None\<close>); \<open>probe\<close> is the while loop, its
  first argument the iterations that are left of \<^verbatim>\<open>len(self.players) * 2\<close>.
\<close>

fun index_of :: "nat option \<Rightarrow> player list \<Rightarrow> nat \<Rightarrow> nat" where
  "index_of r [] i = 0"
| "index_of r (p # ps) i = (if r = Some (number p) then i else index_of r ps (Suc i))"

fun probe :: "nat \<Rightarrow> player list \<Rightarrow> nat \<Rightarrow> nat option" where
  "probe 0 ps p_idx = None"
| "probe (Suc left) ps p_idx =
     (let j = (if p_idx + 1 \<ge> length ps then 0 else p_idx + 1)
      in if valid (ps ! j) then Some (number (ps ! j)) else probe left ps j)"

definition next_player :: "nat option \<Rightarrow> player list \<Rightarrow> nat option" where
  "next_player r ps = probe (length ps * 2) ps (index_of r ps 0)"

text \<open>\<^verbatim>\<open>PlayerList.stop\<close>: disconnect all players and delete all player objects.\<close>

fun stop_all :: "player list \<Rightarrow> io_event list \<Rightarrow> py_error + io_event list" where
  "stop_all [] io = Inr io"
| "stop_all (p # ps) io =
     (case push_buffer p io of
        Inl e \<Rightarrow> Inl e
      | Inr (p1, io1) \<Rightarrow> stop_all ps (snd (stop p1 io1)))"

definition plist_stop :: "server \<Rightarrow> py_error + server" where
  "plist_stop s =
     (case stop_all (players s) (wire s) of
        Inl e \<Rightarrow> Inl e
      | Inr io' \<Rightarrow> Inr (s\<lparr>players := [], sockets := Map.empty, wire := io'\<rparr>))"

text \<open>\<^verbatim>\<open>Player.__init__\<close> and \<^verbatim>\<open>PlayerList.add_player\<close>.\<close>

definition new_player :: "nat \<Rightarrow> role \<Rightarrow> nat \<Rightarrow> player" where
  "new_player sock st num =
     \<lparr>player_socket = sock, status = st, state = VER_CHECK, conn = Some (new_connection sock),
      valid = True, name = lit ''Player'', score = 0, get_broadcast = False, cards = [],
      number = num, current_card = None, selected_card = None, buffer = [],
      has_buffer = False, has_turn = False\<rparr>"

definition add_player :: "nat \<Rightarrow> server \<Rightarrow> server" where
  "add_player sock s =
     (let new = new_player sock (if have_master s then PLAYER else MASTER) (seq_number s)
      in s\<lparr>players := players s @ [new],
           sockets := (sockets s)(sock \<mapsto> number new),
           have_master := True,
           seq_number := seq_number s + 1\<rparr>)"

subsection \<open>\<^verbatim>\<open>Player.handle_message\<close> and \<^verbatim>\<open>Player.handle_state\<close>\<close>

text \<open>
  Both are methods of the player at position \<open>i\<close> of the roster. \<open>msg\<close> is the line
  that \<^verbatim>\<open>self.conn.get()\<close> returns. \<open>invalidate\<close> is \<^verbatim>\<open>self.valid = False\<close> followed by
  \<^verbatim>\<open>return\<close> (the log lines are left out). Where \<^verbatim>\<open>int(res[1])\<close> raises, the handler
  raises before it has changed anything.
\<close>

definition invalidate :: "nat \<Rightarrow> server \<Rightarrow> server" where
  "invalidate i s = s\<lparr>players := (players s)[i := (players s ! i)\<lparr>valid := False\<rparr>]\<rparr>"

definition handle_message :: "python \<Rightarrow> nat \<Rightarrow> str \<Rightarrow> server \<Rightarrow> py_error + server" where
  "handle_message py i msg s =
     (let self = players s ! i in
      case conn self of
        None \<Rightarrow> Inl AttributeError
      | Some c \<Rightarrow>
     (let res = str_split msg in
      if state self = VER_WAIT then
        (if length res \<noteq> 2 \<or> res ! 0 \<noteq> lit ''OK'' then Inr (invalidate i s)
         else (case broadcast (lit ''#PLAYER_LIST'') None
                      ((players s)[i := self\<lparr>name := res ! 1, get_broadcast := True\<rparr>]) of
                 Inl e \<Rightarrow> Inl e
               | Inr ps \<Rightarrow> Inr (s\<lparr>players := ps[i := (ps ! i)\<lparr>state := START_WAIT\<rparr>]\<rparr>)))
      else if state self = START_WAIT then
        (if status self \<noteq> MASTER then Inr (invalidate i s)
         else if length res \<noteq> 2 \<or> res ! 0 \<noteq> lit ''START_GAME'' then Inr (invalidate i s)
         else Inr (s\<lparr>game_state := GAME, card_set := res ! 1,
                     players := (players s)[i := self\<lparr>state := BEGIN_SYNC\<rparr>]\<rparr>))
      else if state self = READY_WAIT then
        (if length res \<noteq> 1 \<or> res ! 0 \<noteq> lit ''READY'' then Inr (invalidate i s)
         else Inr (s\<lparr>players := (players s)[i := self\<lparr>state := TURN_SYNC\<rparr>]\<rparr>))
      else if state self = WAIT_ASSOC then
        (if \<not> has_turn self then Inr (invalidate i s)
         else if length res < 3 \<or> res ! 0 \<noteq> lit ''TURN'' \<or> \<not> isnumeric py (res ! 1) then
           Inr (s\<lparr>players := for_each (\<lambda>player. player\<lparr>state := TURN_SYNC\<rparr>)
                                 (players (invalidate i s))\<rparr>)
         else (case py_int py (res ! 1) of
                 Inl e \<Rightarrow> Inl e
               | Inr cid \<Rightarrow>
                   (case broadcast (lit ''ASSOC '' @ join (lit '' '') (drop 2 res)) None
                           (for_each (\<lambda>player. player\<lparr>state := WAIT_SELF_CARD\<rparr>)
                              ((players s)[i := self\<lparr>current_card := Some cid,
                                                     selected_card := Some (- 1)\<rparr>])) of
                      Inl e \<Rightarrow> Inl e
                    | Inr ps \<Rightarrow> Inr (s\<lparr>players := ps\<rparr>))))
      else if state self = WAIT_SELF_CARD then
        (if \<not> has_turn self then
           (if length res < 2 \<or> res ! 0 \<noteq> lit ''CARD'' \<or> \<not> isnumeric py (res ! 1)
            then Inr (invalidate i s)
            else (case py_int py (res ! 1) of
                    Inl e \<Rightarrow> Inl e
                  | Inr cid \<Rightarrow>
                      (let self' = self\<lparr>current_card := Some cid\<rparr> in
                       case broadcast (lit ''#SELF'') (Some self') ((players s)[i := self']) of
                         Inl e \<Rightarrow> Inl e
                       | Inr ps \<Rightarrow>
                           Inr (s\<lparr>players := ps[i := (ps ! i)\<lparr>state := SELF_SYNC\<rparr>]\<rparr>))))
         else Inr (invalidate i s))
      else if state self = WAIT_VOTE then
        (if \<not> has_turn self then
           (if length res < 2 \<or> res ! 0 \<noteq> lit ''CARD'' \<or> \<not> isnumeric py (res ! 1)
            then Inr (invalidate i s)
            else (case py_int py (res ! 1) of
                    Inl e \<Rightarrow> Inl e
                  | Inr cid \<Rightarrow>
                      Inr (s\<lparr>players := (players s)[i := self\<lparr>selected_card := Some cid,
                                                                  state := VOTE_SYNC\<rparr>]\<rparr>)))
         else Inr (invalidate i s))
      else if state self = WAIT_NEXT_TURN then
        (if length res \<noteq> 1 \<or> res ! 0 \<noteq> lit ''NEXT_TURN'' then Inr (invalidate i s)
         else Inr (s\<lparr>players := (players s)[i := self\<lparr>state := SYNC_NEXT_TURN\<rparr>]\<rparr>))
      else Inr (invalidate i s)))"

text \<open>\<^verbatim>\<open>handle_state\<close> is a sequence of five \<^verbatim>\<open>if\<close>s, each reading the state the one before left.\<close>

definition version_message :: "server \<Rightarrow> player \<Rightarrow> str" where
  "version_message s p =
     lit ''VERSION '' @ str_nat (number p) @ lit '' '' @ str_role (status p) @ lit '' '' @ res_name s
       @ lit '' '' @ res_link s"

definition handle_state :: "nat \<Rightarrow> server \<Rightarrow> py_error + server" where
  "handle_state i s =
     (let self0 = players s ! i;
          self1 = (if state self0 = VER_CHECK
                   then (send_message (version_message s self0) self0)\<lparr>state := VER_WAIT\<rparr>
                   else self0);
          self2 = (if state self1 = START_WAIT \<and> game_state s = GAME
                   then self1\<lparr>state := BEGIN_SYNC\<rparr> else self1);
          self3 = (if state self2 = VER_WAIT \<and> game_state s = GAME
                   then self2\<lparr>valid := False\<rparr> else self2);
          ps3 = (players s)[i := self3]
      in case (if state self3 = WAIT_SELF_CARD \<and> has_turn self3
               then broadcast (lit ''#SELF'') (Some self3) (ps3[i := self3\<lparr>state := SELF_SYNC\<rparr>])
               else Inr ps3) of
           Inl e \<Rightarrow> Inl e
         | Inr ps4 \<Rightarrow>
             Inr (s\<lparr>players := (if state (ps4 ! i) = WAIT_VOTE \<and> has_turn (ps4 ! i)
                                  then ps4[i := (ps4 ! i)\<lparr>state := VOTE_SYNC\<rparr>] else ps4)\<rparr>))"

subsection \<open>\<^verbatim>\<open>GameServer\<close>: admission and the deal\<close>

text \<open>\<^verbatim>\<open>get_sync_state\<close>: the state all valid players share, \<^verbatim>\<open>None\<close> when they differ.\<close>

fun sync_loop :: "pstate option \<Rightarrow> player list \<Rightarrow> pstate option" where
  "sync_loop st [] = st"
| "sync_loop st (p # ps) =
     (case st of
        None \<Rightarrow> sync_loop (Some (state p)) ps
      | Some v \<Rightarrow> if state p \<noteq> v then None else sync_loop st ps)"

definition get_sync_state :: "server \<Rightarrow> pstate option" where
  "get_sync_state s = sync_loop None (iter (players s))"

text \<open>
  \<^verbatim>\<open>prepare\<close>: a new session. The new \<^verbatim>\<open>Resources\<close> object is given by what it loads
  (name, link, configuration); the deck and the card set are not reset.
\<close>

definition prepare :: "str \<Rightarrow> str \<Rightarrow> (str \<rightharpoonup> int) option \<Rightarrow> server \<Rightarrow> server" where
  "prepare rn rl conf s =
     s\<lparr>game_state := PLAYER_CONN, players := [], sockets := Map.empty, have_master := False,
       seq_number := 0, res_name := rn, res_link := rl, configuration := conf,
       current_player := None\<rparr>"

text \<open>
  \<^verbatim>\<open>accept_connection\<close>: \<open>sock\<close> is the socket that \<^verbatim>\<open>accept()\<close> returned. A connection
  that is not admitted is shut down and then closed. Either call can raise \<^verbatim>\<open>OSError\<close>
  (\<^verbatim>\<open>shutdown\<close> does when the peer has reset the connection); the source catches
  neither, so the call after it is not reached. \<open>peer\<close> says what the two calls will do.
\<close>

record peer =
  shutdown_raises :: bool
  close_raises :: bool

definition reject :: "peer \<Rightarrow> nat \<Rightarrow> server \<Rightarrow> py_error + server" where
  "reject pr sock s =
     (if shutdown_raises pr then Inl OSError
      else if close_raises pr then Inl OSError
      else Inr (s\<lparr>wire := wire s @ [Shutdown sock, Closed sock]\<rparr>))"

definition accept_connection :: "peer \<Rightarrow> nat \<Rightarrow> server \<Rightarrow> py_error + server" where
  "accept_connection pr sock s =
     (if game_state s = PLAYER_CONN
      then (if len (players s) < 7 then Inr (add_player sock s) else reject pr sock s)
      else reject pr sock s)"

text \<open>
  \<^verbatim>\<open>begin_game\<close>. \<open>card_num\<close> is the \<^verbatim>\<open>try\<close> block: 50 when the configuration is missing
  or has no entry for the card set. \<open>slice_to xs k\<close> is \<^verbatim>\<open>xs[:k]\<close>, where a negative \<open>k\<close>
  counts from the end. \<open>shuffle\<close> is the permutation that \<^verbatim>\<open>random.shuffle\<close> applies.
\<close>

definition card_num :: "server \<Rightarrow> int" where
  "card_num s =
     (case configuration s of
        None \<Rightarrow> 50
      | Some conf \<Rightarrow> (case conf (card_set s) of None \<Rightarrow> 50 | Some n \<Rightarrow> n))"

definition py_range :: "int \<Rightarrow> int list" where
  "py_range n = map int [0..<nat n]"

definition slice_to :: "'a list \<Rightarrow> int \<Rightarrow> 'a list" where
  "slice_to xs k = (if k < 0 then take (nat (int (length xs) + k)) xs else take (nat k) xs)"

definition reduce_deck :: "nat \<Rightarrow> int list \<Rightarrow> int list" where
  "reduce_deck n cs =
     (if n = 4 then slice_to cs (int (length cs) - 2)
      else if n = 5 then slice_to cs (int (length cs) - 23)
      else if n = 6 then slice_to cs (int (length cs) - 26)
      else cs)"

text \<open>The deck after the reduction, before the hands are dealt.\<close>

definition usable_deck :: "(int list \<Rightarrow> int list) \<Rightarrow> server \<Rightarrow> int list" where
  "usable_deck shuffle s = reduce_deck (len (players s)) (shuffle (py_range (card_num s)))"

fun deal :: "player list \<Rightarrow> int list \<Rightarrow> player list \<times> int list" where
  "deal [] cs = ([], cs)"
| "deal (p # ps) cs =
     (if valid p
      then (case deal ps (drop 6 cs) of (ps', r) \<Rightarrow> (p\<lparr>cards := take 6 cs\<rparr> # ps', r))
      else (case deal ps cs of (ps', r) \<Rightarrow> (p # ps', r)))"

definition begin_game :: "(int list \<Rightarrow> int list) \<Rightarrow> server \<Rightarrow> server" where
  "begin_game shuffle s =
     (case deal (players s) (usable_deck shuffle s) of
        (ps, r) \<Rightarrow> s\<lparr>players := ps, server_cards := r\<rparr>)"

subsection \<open>\<^verbatim>\<open>GameServer.calculate_result\<close>\<close>

text \<open>
  \<open>count_votes\<close> is the dictionary \<^verbatim>\<open>result\<close> after the two nested loops; its keys are
  the numbers of the valid players. \<open>incr\<close> is \<^verbatim>\<open>result[i] += 1\<close>: the key is there, since
  the dictionary was built from the same iteration.
\<close>

definition incr :: "(nat \<rightharpoonup> int) \<Rightarrow> nat \<Rightarrow> (nat \<rightharpoonup> int)" where
  "incr r k = (case r k of None \<Rightarrow> r | Some v \<Rightarrow> r(k \<mapsto> v + 1))"

definition count_step :: "nat \<Rightarrow> player \<Rightarrow> player \<Rightarrow> (nat \<rightharpoonup> int) \<Rightarrow> (nat \<rightharpoonup> int)" where
  "count_step cp i player r =
     (if number player \<noteq> cp
      then (if current_card i = selected_card player then incr r (number i) else r)
      else r)"

definition count_votes :: "nat \<Rightarrow> player list \<Rightarrow> (nat \<rightharpoonup> int)" where
  "count_votes cp vs =
     fold (\<lambda>i r. fold (count_step cp i) vs r) vs (map_of (map (\<lambda>p. (number p, 0)) vs))"

text \<open>The object that a reference (\<^verbatim>\<open>current_player\<close>) denotes, if it is in the list.\<close>

definition lookup :: "nat \<Rightarrow> player list \<Rightarrow> player option" where
  "lookup n ps = find (\<lambda>p. number p = n) ps"

definition update_ref :: "nat \<Rightarrow> (player \<Rightarrow> player) \<Rightarrow> player list \<Rightarrow> player list" where
  "update_ref n f ps = map (\<lambda>p. if number p = n then f p else p) ps"

definition add_score :: "int \<Rightarrow> player \<Rightarrow> player" where
  "add_score v p = p\<lparr>score := score p + v\<rparr>"

definition calculate_result :: "server \<Rightarrow> py_error + server" where
  "calculate_result s =
     (case current_player s of
        None \<Rightarrow> Inl AttributeError
      | Some cp \<Rightarrow>
          (let ps = players s; result = count_votes cp (iter ps) in
           case result cp of
             None \<Rightarrow> Inl KeyError
           | Some correct \<Rightarrow>
               (case lookup cp (iter ps) of
                  None \<Rightarrow> Inl KeyError
                | Some story \<Rightarrow>
                    if correct = int (len ps) - 1
                    then Inr (s\<lparr>players :=
                                  for_each (\<lambda>player. if number player \<noteq> cp
                                                      then add_score 3 player else player) ps\<rparr>)
                    else
                      (let ps1 =
                             (if correct \<noteq> 0
                              then update_ref cp (add_score 3)
                                     (for_each (\<lambda>player.
                                          if number player \<noteq> cp
                                          then (if selected_card player = current_card story
                                                then add_score 3 player else player)
                                          else player) ps)
                              else ps)
                       in Inr (s\<lparr>players :=
                                    for_each (\<lambda>i. case result (number i) of
                                                     None \<Rightarrow> i
                                                   | Some v \<Rightarrow> add_score v i) ps1\<rparr>)))))"

subsection \<open>\<^verbatim>\<open>GameServer.global_operations\<close>\<close>

text \<open>
  What the run draws from \<^verbatim>\<open>random\<close>: the permutations that \<^verbatim>\<open>shuffle\<close> applies to the
  deck and to the ballot, and the value of \<^verbatim>\<open>randrange(n)\<close>.
\<close>

record rng =
  shuffle_cards :: "int list \<Rightarrow> int list"
  shuffle_votes :: "int option list \<Rightarrow> int option list"
  randrange :: "nat \<Rightarrow> nat"

text \<open>
  \<^verbatim>\<open>current_player.verify()\<close>. An object that is no longer in the roster was stopped when
  it was removed, so it is not valid.
\<close>

definition verify_ref :: "nat \<Rightarrow> player list \<Rightarrow> py_error + bool" where
  "verify_ref n ps = (case lookup n ps of None \<Rightarrow> Inr False | Some p \<Rightarrow> verify p)"

text \<open>The first lines: a storyteller that does not verify sends everybody to \<^verbatim>\<open>TURN_SYNC\<close>.\<close>

definition storyteller_check :: "server \<Rightarrow> py_error + server" where
  "storyteller_check s =
     (case current_player s of
        None \<Rightarrow> Inr s
      | Some cp \<Rightarrow>
          (case verify_ref cp (players s) of
             Inl e \<Rightarrow> Inl e
           | Inr ok \<Rightarrow>
               if \<not> ok
               then Inr (s\<lparr>players := for_each (\<lambda>player. player\<lparr>state := TURN_SYNC\<rparr>) (players s)\<rparr>)
               else Inr s))"

text \<open>The branch \<^verbatim>\<open>cond == "BEGIN_SYNC"\<close>.\<close>

definition begin_message :: "server \<Rightarrow> str \<Rightarrow> player \<Rightarrow> str" where
  "begin_message s lst p =
     lit ''BEGIN '' @ card_set s @ lit '' '' @ join (lit '','') (map str_int (cards p)) @ lit '' '' @ lst"

definition begin_sync :: "rng \<Rightarrow> server \<Rightarrow> server" where
  "begin_sync rnd s =
     (if len (players s) > 0
      then (let s1 = begin_game (shuffle_cards rnd) s;
                lst = player_lst (players s1);
                ps = for_each (\<lambda>player. send_message (begin_message s1 lst player)
                                           (player\<lparr>state := READY_WAIT\<rparr>)) (players s1)
            in s1\<lparr>players := ps,
                  current_player :=
                    next_player (Some (number (ps ! randrange rnd (length ps)))) ps\<rparr>)
      else s\<lparr>game_state := ERROR\<rparr>)"

text \<open>
  The branch \<^verbatim>\<open>cond == "TURN_SYNC"\<close>. When \<^verbatim>\<open>next_player\<close> returns \<^verbatim>\<open>None\<close>, reading
  \<^verbatim>\<open>self.current_player.number\<close> raises.
\<close>

definition turn_sync :: "server \<Rightarrow> py_error + server" where
  "turn_sync s =
     (case next_player (current_player s) (players s) of
        None \<Rightarrow> Inl AttributeError
      | Some n \<Rightarrow>
          (case broadcast (lit ''TURN '' @ str_nat n) None
                  (for_each (\<lambda>player. player\<lparr>has_turn := (number player = n),
                                               state := WAIT_ASSOC\<rparr>) (players s)) of
             Inl e \<Rightarrow> Inl e
           | Inr ps \<Rightarrow> Inr (s\<lparr>players := ps, current_player := Some n\<rparr>)))"

text \<open>The branch \<^verbatim>\<open>cond == "SELF_SYNC"\<close>.\<close>

definition self_sync :: "rng \<Rightarrow> server \<Rightarrow> py_error + server" where
  "self_sync rnd s =
     (let card_list = shuffle_votes rnd (map current_card (iter (players s))) in
      case broadcast (lit ''VOTE '' @ join (lit '','') (map str_opt card_list)) None (players s) of
        Inl e \<Rightarrow> Inl e
      | Inr ps \<Rightarrow> Inr (s\<lparr>players := for_each (\<lambda>player. player\<lparr>state := WAIT_VOTE\<rparr>) ps\<rparr>))"

text \<open>The branch \<^verbatim>\<open>cond == "VOTE_SYNC"\<close>.\<close>

definition status_message :: "player \<Rightarrow> player list \<Rightarrow> str" where
  "status_message story ps =
     lit ''STATUS '' @ str_opt (current_card story) @ lit '' ''
       @ join (lit '','') (map (\<lambda>player. str_nat (number player) @ lit '';''
                             @ str_opt (current_card player) @ lit '';''
                             @ str_opt (selected_card player)) (iter ps))
       @ lit '' ''
       @ join (lit '','') (map (\<lambda>player. str_nat (number player) @ lit '';'' @ str_int (score player))
                       (iter ps))"

definition vote_sync :: "server \<Rightarrow> py_error + server" where
  "vote_sync s =
     (case calculate_result s of
        Inl e \<Rightarrow> Inl e
      | Inr s1 \<Rightarrow>
          (case current_player s1 of
             None \<Rightarrow> Inl AttributeError
           | Some cp \<Rightarrow>
               (case lookup cp (players s1) of
                  None \<Rightarrow> Inl AttributeError
                | Some story \<Rightarrow>
                    (case broadcast (status_message story (players s1)) None (players s1) of
                       Inl e \<Rightarrow> Inl e
                     | Inr ps \<Rightarrow>
                         Inr (s1\<lparr>players :=
                                    for_each (\<lambda>player. player\<lparr>state := WAIT_NEXT_TURN\<rparr>) ps\<rparr>)))))"

text \<open>
  The branch \<^verbatim>\<open>cond == "SYNC_NEXT_TURN"\<close>. \<open>remove_played\<close> is the inner loop over the
  hand, which removes the first card equal to the played one; \<open>deal_one\<close> is the loop
  \<^verbatim>\<open>player.cards.append(self.cards.pop(0))\<close>, where \<^verbatim>\<open>pop\<close> raises on an empty deck.
\<close>

definition remove_played :: "int option \<Rightarrow> int list \<Rightarrow> int list" where
  "remove_played cur cs =
     (case find (\<lambda>c. Some c = cur) cs of None \<Rightarrow> cs | Some c \<Rightarrow> remove1 c cs)"

fun deal_one :: "player list \<Rightarrow> int list \<Rightarrow> py_error + (player list \<times> int list)" where
  "deal_one [] cs = Inr ([], cs)"
| "deal_one (p # ps) cs =
     (if valid p
      then (case cs of
              [] \<Rightarrow> Inl IndexError
            | c # cs' \<Rightarrow>
                (case deal_one ps cs' of
                   Inl e \<Rightarrow> Inl e
                 | Inr (ps', r) \<Rightarrow> Inr (p\<lparr>cards := cards p @ [c]\<rparr> # ps', r)))
      else (case deal_one ps cs of
              Inl e \<Rightarrow> Inl e
            | Inr (ps', r) \<Rightarrow> Inr (p # ps', r)))"

definition cards_message :: "player \<Rightarrow> str" where
  "cards_message p = lit ''CARDS '' @ join (lit '','') (map str_int (cards p))"

definition sync_next_turn :: "server \<Rightarrow> py_error + server" where
  "sync_next_turn s =
     (let ps1 = for_each (\<lambda>player. player\<lparr>cards := remove_played (current_card player)
                                                       (cards player)\<rparr>) (players s)
      in case (if length (server_cards s) \<ge> len ps1 then deal_one ps1 (server_cards s)
               else Inr (ps1, server_cards s)) of
           Inl e \<Rightarrow> Inl e
         | Inr (ps2, cs2) \<Rightarrow>
             (case iter ps2 of
                [] \<Rightarrow> Inl IndexError
              | first # rest \<Rightarrow>
                  if length (cards first) > 0
                  then Inr (s\<lparr>players :=
                                for_each (\<lambda>player. (send_message (cards_message player) player)
                                                      \<lparr>state := TURN_SYNC\<rparr>) ps2,
                              server_cards := cs2\<rparr>)
                  else (case broadcast (lit ''END_GAME'') None ps2 of
                          Inl e \<Rightarrow> Inl e
                        | Inr ps3 \<Rightarrow>
                            Inr (s\<lparr>players := for_each (\<lambda>player. player\<lparr>valid := False\<rparr>) ps3,
                                   server_cards := cs2\<rparr>))))"

definition global_operations :: "rng \<Rightarrow> server \<Rightarrow> py_error + server" where
  "global_operations rnd s =
     (case storyteller_check s of
        Inl e \<Rightarrow> Inl e
      | Inr s1 \<Rightarrow>
          (let cond = get_sync_state s1 in
           if cond = Some BEGIN_SYNC then Inr (begin_sync rnd s1)
           else if cond = Some TURN_SYNC then turn_sync s1
           else if cond = Some SELF_SYNC then self_sync rnd s1
           else if cond = Some VOTE_SYNC then vote_sync s1
           else if cond = Some SYNC_NEXT_TURN then sync_next_turn s1
           else Inr s1))"

subsection \<open>The main loop and the console\<close>

text \<open>
  \<open>flush\<close> is the body of the loop "Push buffers" for the player at position \<open>i\<close>;
  \<open>io_failure\<close> is an I/O error on that player's connection, which the connection
  records in its status.
\<close>

definition flush :: "nat \<Rightarrow> server \<Rightarrow> py_error + server" where
  "flush i s =
     (let player = players s ! i in
      case conn player of
        None \<Rightarrow> Inl AttributeError
      | Some c \<Rightarrow>
          (case buffer player of
             [] \<Rightarrow> Inl IndexError
           | m # ms \<Rightarrow>
               Inr (s\<lparr>players := (players s)[i := player\<lparr>buffer := ms, has_buffer := (length ms > 0)\<rparr>],
                      wire := conn_send c m (wire s)\<rparr>)))"

definition io_failure :: "nat \<Rightarrow> server \<Rightarrow> server" where
  "io_failure i s =
     s\<lparr>players := (players s)[i := (players s ! i)
         \<lparr>conn := map_option (\<lambda>c. c\<lparr>cstatus := False\<rparr>) (conn (players s ! i))\<rparr>]\<rparr>"

text \<open>\<^verbatim>\<open>CLI.comm_start\<close>, \<^verbatim>\<open>CLI.comm_end\<close> and \<^verbatim>\<open>CLI.comm_stop\<close>.\<close>

definition comm_start :: "str list \<Rightarrow> server \<Rightarrow> server" where
  "comm_start cmdline s =
     (if game_state s \<noteq> PLAYER_CONN then s
      else if length cmdline = 2 then s\<lparr>card_set := cmdline ! 1, game_state := GAME\<rparr>
      else s)"

definition comm_end :: "server \<Rightarrow> server" where
  "comm_end s =
     (if game_state s = GAME
      then s\<lparr>players := for_each (\<lambda>player. player\<lparr>cards := []\<rparr>) (players s), server_cards := []\<rparr>
      else s)"

definition comm_stop :: "server \<Rightarrow> server" where
  "comm_stop s = s\<lparr>game_state := SHUTDOWN\<rparr>"

subsection \<open>Sessions\<close>

text \<open>
  The states a session passes through. A session starts with \<^verbatim>\<open>prepare\<close>; after that the
  main loop, the console and the network act on it in some order. A step that raises
  ends the process, so it leads to no state.
\<close>

definition permutes :: "rng \<Rightarrow> bool" where
  "permutes rnd =
     ((\<forall>xs. mset (shuffle_cards rnd xs) = mset xs) \<and> (\<forall>xs. mset (shuffle_votes rnd xs) = mset xs)
      \<and> (\<forall>n. 0 < n \<longrightarrow> randrange rnd n < n))"

inductive reachable :: "server \<Rightarrow> bool" where
  session: "reachable (prepare rn rl conf s0)"
| accept: "reachable s \<Longrightarrow> accept_connection pr sock s = Inr s' \<Longrightarrow> reachable s'"
| message: "reachable s \<Longrightarrow> i < length (players s) \<Longrightarrow> handle_message py i msg s = Inr s'
     \<Longrightarrow> reachable s'"
| auto_advance: "reachable s \<Longrightarrow> i < length (players s) \<Longrightarrow> handle_state i s = Inr s'
     \<Longrightarrow> reachable s'"
| orchestrate: "reachable s \<Longrightarrow> permutes rnd \<Longrightarrow> global_operations rnd s = Inr s'
     \<Longrightarrow> reachable s'"
| sweep: "reachable s \<Longrightarrow> check s = Inr s' \<Longrightarrow> reachable s'"
| flushed: "reachable s \<Longrightarrow> i < length (players s) \<Longrightarrow> flush i s = Inr s' \<Longrightarrow> reachable s'"
| failure: "reachable s \<Longrightarrow> i < length (players s) \<Longrightarrow> reachable (io_failure i s)"
| console_start: "reachable s \<Longrightarrow> reachable (comm_start cmdline s)"
| console_end: "reachable s \<Longrightarrow> reachable (comm_end s)"
| console_stop: "reachable s \<Longrightarrow> reachable (comm_stop s)"
| closing: "reachable s \<Longrightarrow> plist_stop s = Inr s' \<Longrightarrow> reachable s'"

subsection \<open>Sample states\<close>

text \<open>
  \<open>boot\<close> is the server at the start of its first session. \<open>seated n\<close> is the session
  after \<open>n\<close> connections on the sockets 10, 11, ... were admitted. \<open>seat\<close> is a player
  in the middle of a game and \<open>table\<close> a session with the given roster.
\<close>

definition boot :: server where
  "boot = \<lparr>players = [], sockets = Map.empty, have_master = False, seq_number = 0,
     game_state = PLAYER_CONN, card_set = lit ''0'', res_name = lit ''1'', res_link = lit ''http://res'',
     configuration = None, server_cards = [], current_player = None, wire = []\<rparr>"

definition seated :: "nat \<Rightarrow> server" where
  "seated n = fold add_player [10..<10 + n] boot"

definition seat :: "nat \<Rightarrow> pstate \<Rightarrow> int list \<Rightarrow> int option \<Rightarrow> int option \<Rightarrow> player" where
  "seat n st hand cur sel =
     (new_player (10 + n) (if n = 0 then MASTER else PLAYER) n)
       \<lparr>state := st, name := lit ''P'' @ str_nat n, get_broadcast := True, cards := hand,
        current_card := cur, selected_card := sel\<rparr>"

definition table :: "player list \<Rightarrow> server" where
  "table ps =
     boot\<lparr>players := ps, sockets := map_of (map (\<lambda>p. (player_socket p, number p)) ps),
          have_master := True, seq_number := length ps, game_state := GAME\<rparr>"

definition fixed_rng :: rng where
  "fixed_rng = \<lparr>shuffle_cards = (\<lambda>xs. xs), shuffle_votes = (\<lambda>xs. xs), randrange = (\<lambda>n. 0)\<rparr>"

text \<open>
  The reduction of the deck in the words of the specification: \<open>offset n\<close> is what is
  taken from the card count when \<open>n\<close> valid players are seated. \<open>configured n s\<close> is \<open>s\<close>
  with a configuration that gives the current card set \<open>n\<close> cards; \<open>begin_table n\<close> is a
  session of \<open>n\<close> players on the barrier \<^verbatim>\<open>BEGIN_SYNC\<close>, with no configuration.
\<close>

definition offset :: "nat \<Rightarrow> int" where
  "offset n = (if n = 4 then 2 else if n = 5 then 23 else if n = 6 then 26 else 0)"

definition configured :: "int \<Rightarrow> server \<Rightarrow> server" where
  "configured n s = s\<lparr>configuration := Some [card_set s \<mapsto> n]\<rparr>"

definition begin_table :: "nat \<Rightarrow> server" where
  "begin_table n = table (map (\<lambda>k. seat k BEGIN_SYNC [] None None) [0..<n])"

text \<open>
  The sweep called twice in a row, what an observer sees of the roster, and sample states
  for the sweep: \<open>gone p\<close> is \<open>p\<close> invalidated; in \<open>sweep_table\<close> the players 1 and 2 are
  invalid, in \<open>midgame\<close> and \<open>lobby\<close> (the same roster in phase \<^verbatim>\<open>PLAYER_CONN\<close>) the
  master is.
\<close>

definition sweep_twice :: "server \<Rightarrow> py_error + server" where
  "sweep_twice s = (case check s of Inl e \<Rightarrow> Inl e | Inr s1 \<Rightarrow> check s1)"

definition roster :: "py_error + server \<Rightarrow> py_error + (nat \<times> bool) list" where
  "roster r = (case r of Inl e \<Rightarrow> Inl e | Inr s \<Rightarrow> Inr (map (\<lambda>p. (number p, valid p)) (players s)))"

definition gone :: "player \<Rightarrow> player" where
  "gone p = p\<lparr>valid := False\<rparr>"

definition sweep_table :: server where
  "sweep_table =
     table [seat 0 WAIT_VOTE [] None None,
            gone ((seat 1 WAIT_VOTE [] None None)\<lparr>buffer := [lit ''TURN 0''], has_buffer := True\<rparr>),
            gone (seat 2 WAIT_VOTE [] None None)]"

definition midgame :: server where
  "midgame = table [gone (seat 0 WAIT_VOTE [] None None), seat 1 WAIT_VOTE [] None None]"

definition lobby :: server where
  "lobby = midgame\<lparr>game_state := PLAYER_CONN\<rparr>"

text \<open>
  The effect of one sweep in which the player at position \<open>k\<close> is the first that does
  not verify, written out.
\<close>

definition swept :: "nat \<Rightarrow> server \<Rightarrow> server" where
  "swept k s =
     (let p = players s ! k;
          st = (if status p = MASTER \<and> game_state s = PLAYER_CONN then ERROR else game_state s);
          ps = remove_at k (players s)
      in s\<lparr>sockets := (sockets s)(player_socket p := None),
           game_state := st,
           wire := (case conn p of
                      None \<Rightarrow> wire s
                    | Some c \<Rightarrow> wire s @ map (Sent (csock c)) (buffer p) @ [Closed (csock c)]),
           players := (if st = PLAYER_CONN
                       then deliver (lit ''PLAYER_LIST '' @ player_lst ps) ps else ps)\<rparr>)"

text \<open>
  A clue in the words of the specification: \<^verbatim>\<open>TURN\<close>, a numeric card id and at least one
  clue word. \<open>session_ends\<close> is the test with which the main loop leaves a session: a
  phase other than \<^verbatim>\<open>PLAYER_CONN\<close> and \<^verbatim>\<open>GAME\<close>, or no valid player left once the phase is
  not \<^verbatim>\<open>PLAYER_CONN\<close>. In \<open>clue_table\<close> player 1 holds the turn and every valid player
  waits for the clue; in \<open>solo_table\<close> the storyteller is the only player. \<open>latin\<close> is an
  interpreter that knows the numeric characters below U+0100 and has the usual limit;
  \<open>polite\<close> and \<open>reset_peer\<close> are a peer that lets itself be shut down and one that has
  reset the connection.
\<close>

definition is_clue :: "python \<Rightarrow> str \<Rightarrow> bool" where
  "is_clue py msg =
     (case str_split msg of
        keyword # card_id # word # others \<Rightarrow> keyword = lit ''TURN'' \<and> isnumeric py card_id
      | _ \<Rightarrow> False)"

definition session_ends :: "server \<Rightarrow> bool" where
  "session_ends s =
     ((game_state s \<noteq> PLAYER_CONN \<and> game_state s \<noteq> GAME)
      \<or> (len (players s) = 0 \<and> game_state s \<noteq> PLAYER_CONN))"

definition clue_table :: server where
  "clue_table =
     (table [seat 0 WAIT_ASSOC [1, 2] None None,
             (seat 1 WAIT_ASSOC [3, 4] None None)\<lparr>has_turn := True\<rparr>,
             gone (seat 2 WAIT_VOTE [5] None None),
             seat 3 WAIT_ASSOC [6, 7] None None])\<lparr>current_player := Some 1\<rparr>"

definition solo_table :: server where
  "solo_table =
     (table [(seat 0 WAIT_ASSOC [1, 2] None None)\<lparr>has_turn := True\<rparr>])\<lparr>current_player := Some 0\<rparr>"

definition latin :: python where
  "latin =
     \<lparr>numeric = (\<lambda>c. (48 \<le> c \<and> c \<le> 57) \<or> c = 178 \<or> c = 179 \<or> c = 185
                      \<or> (188 \<le> c \<and> c \<le> 190)),
      decimal = (\<lambda>c. if 48 \<le> c \<and> c \<le> 57 then Some (c - 48) else None),
      max_str_digits = 4300\<rparr>"

definition polite :: peer where
  "polite = \<lparr>shutdown_raises = False, close_raises = False\<rparr>"


text \<open>
  The scoring rule in the words of the specification. \<open>fooled vs st i\<close> is the number of
  players of \<open>vs\<close> other than the storyteller \<open>st\<close> whose vote is the card that \<open>i\<close> played;
  \<open>gain vs story p\<close> is what \<open>p\<close> gains in a round with the valid players \<open>vs\<close> and the
  storyteller \<open>story\<close>. In \<open>vote_table a b c\<close> player 0 is the storyteller with card 10,
  and the players 1, 2 and 3 played 11, 12 and 13 and voted \<open>a\<close>, \<open>b\<close> and \<open>c\<close>.
\<close>

definition fooled :: "player list \<Rightarrow> nat \<Rightarrow> player \<Rightarrow> int" where
  "fooled vs st i =
     int (length (filter (\<lambda>voter. number voter \<noteq> st \<and> selected_card voter = current_card i) vs))"

definition gain :: "player list \<Rightarrow> player \<Rightarrow> player \<Rightarrow> int" where
  "gain vs story p =
     (let st = number story; correct = fooled vs st story; N = int (length vs)
      in if correct = N - 1 then (if number p \<noteq> st then 3 else 0)
         else (if correct > 0
               then (if number p = st then 3
                     else if selected_card p = current_card story then 3 else 0)
               else 0) + fooled vs st p)"

definition vote_table :: "int \<Rightarrow> int \<Rightarrow> int \<Rightarrow> server" where
  "vote_table a b c =
     (table [(seat 0 VOTE_SYNC [10, 20] (Some 10) (Some (- 1)))\<lparr>has_turn := True\<rparr>,
             seat 1 VOTE_SYNC [11, 21] (Some 11) (Some a),
             seat 2 VOTE_SYNC [12, 22] (Some 12) (Some b),
             seat 3 VOTE_SYNC [13, 23] (Some 13) (Some c)])\<lparr>current_player := Some 0\<rparr>"

text \<open>
  The end of a turn in the words of the specification. \<open>discard p\<close> is \<open>p\<close> without the card
  it played; \<open>enough_cards\<close> says that the deck has a card for every valid player;
  \<open>replenished s\<close> is the roster after the played cards were removed and, if there are
  enough cards, the valid player with \<open>k\<close> valid players before it got card \<open>k\<close> of the
  deck; \<open>game_over\<close> says that after this the hand of the first valid player is empty;
  \<open>next_turn s\<close> is the session after the barrier \<^verbatim>\<open>SYNC_NEXT_TURN\<close>. In
  \<open>next_table h0 h1 deck\<close> the two players hold the hands \<open>h0\<close> and \<open>h1\<close> and played the
  cards 1 and 5.
\<close>

definition discard :: "player \<Rightarrow> player" where
  "discard p =
     p\<lparr>cards := (case current_card p of None \<Rightarrow> cards p | Some c \<Rightarrow> remove1 c (cards p))\<rparr>"

definition enough_cards :: "server \<Rightarrow> bool" where
  "enough_cards s = (len (players s) \<le> length (server_cards s))"

definition replenished :: "server \<Rightarrow> player list" where
  "replenished s =
     (let ps1 = map (\<lambda>p. if valid p then discard p else p) (players s)
      in if enough_cards s
         then map (\<lambda>j. if valid (ps1 ! j)
                        then (ps1 ! j)\<lparr>cards := cards (ps1 ! j) @ [server_cards s ! len (take j ps1)]\<rparr>
                        else ps1 ! j) [0..<length ps1]
         else ps1)"

definition game_over :: "server \<Rightarrow> bool" where
  "game_over s = (case iter (replenished s) of [] \<Rightarrow> True | first # rest \<Rightarrow> cards first = [])"

definition next_turn :: "server \<Rightarrow> server" where
  "next_turn s =
     s\<lparr>players :=
         (if game_over s
          then map (\<lambda>p. if valid p
                         then (if get_broadcast p then send_message (lit ''END_GAME'') p else p)\<lparr>valid := False\<rparr>
                         else p) (replenished s)
          else map (\<lambda>p. if valid p then (send_message (cards_message p) p)\<lparr>state := TURN_SYNC\<rparr>
                         else p) (replenished s)),
       server_cards :=
         (if enough_cards s then drop (len (players s)) (server_cards s) else server_cards s)\<rparr>"

definition next_table :: "int list \<Rightarrow> int list \<Rightarrow> int list \<Rightarrow> server" where
  "next_table h0 h1 deck =
     (table [(seat 0 SYNC_NEXT_TURN h0 (Some 1) (Some (- 1)))\<lparr>has_turn := True\<rparr>,
             seat 1 SYNC_NEXT_TURN h1 (Some 5) (Some 1)])
       \<lparr>current_player := Some 0, server_cards := deck\<rparr>"

text \<open>
  What the roster shows of its players' identity: \<open>ids\<close> is the list of their numbers and
  roles. \<open>same_roster s s'\<close> says that a step changed neither this list nor the counters
  of \<^verbatim>\<open>add_player\<close>. \<open>roster_inv\<close> is the invariant of a session: a master was assigned
  if and only if a number was; the numbers in the roster are different and below the
  next number; and a player is the master if and only if its number is 0. \<open>orphaned\<close> is
  a session of two players after the master's connection failed and the sweep removed it.
\<close>

definition ids :: "player list \<Rightarrow> (nat \<times> role) list" where
  "ids ps = map (\<lambda>p. (number p, status p)) ps"

definition same_roster :: "server \<Rightarrow> server \<Rightarrow> bool" where
  "same_roster s s' =
     (ids (players s') = ids (players s) \<and> have_master s' = have_master s
      \<and> seq_number s' = seq_number s)"

definition roster_inv :: "server \<Rightarrow> bool" where
  "roster_inv s =
     ((have_master s \<longleftrightarrow> 0 < seq_number s) \<and> distinct (map fst (ids (players s)))
      \<and> list_all (\<lambda>x. fst x < seq_number s \<and> (snd x = MASTER \<longleftrightarrow> fst x = 0)) (ids (players s)))"

definition orphaned :: server where
  "orphaned = swept 0 (io_failure 0 (seated 2))"

text \<open>
  The start of a round in the words of the specification: \<open>new_round n s\<close> is the session
  \<open>s\<close> after the orchestrator has made the player with the number \<open>n\<close> the storyteller:
  every valid player waits for the clue, the storyteller alone holds the turn, and the
  players that take broadcasts are told \<^verbatim>\<open>TURN n\<close>. \<open>clue_out\<close> and \<open>solo_out\<close> are
  \<open>clue_table\<close> and \<open>solo_table\<close> after the storyteller was invalidated and the valid
  players were sent back to \<^verbatim>\<open>TURN_SYNC\<close>.
\<close>

definition new_round :: "nat \<Rightarrow> server \<Rightarrow> server" where
  "new_round n s =
     s\<lparr>players :=
         map (\<lambda>p. if valid p
                   then (let q = p\<lparr>has_turn := (number p = n), state := WAIT_ASSOC\<rparr>
                         in if get_broadcast q then send_message (lit ''TURN '' @ str_nat n) q else q)
                   else p) (players s),
       current_player := Some n\<rparr>"

definition clue_out :: server where
  "clue_out =
     (table [seat 0 TURN_SYNC [1, 2] None None,
             gone ((seat 1 WAIT_ASSOC [3, 4] None None)\<lparr>has_turn := True\<rparr>),
             gone (seat 2 WAIT_VOTE [5] None None),
             seat 3 TURN_SYNC [6, 7] None None])\<lparr>current_player := Some 1\<rparr>"

definition solo_out :: server where
  "solo_out =
     (table [gone ((seat 0 WAIT_ASSOC [1, 2] None None)\<lparr>has_turn := True\<rparr>)])\<lparr>current_player := Some 0\<rparr>"

section \<open>Properties\<close>

subsection \<open>Admission of connections\<close>






subsection \<open>The deck and the deal\<close>

lemma length_py_range: "int (length (py_range n)) = max 0 n"
  by (simp add: py_range_def)

lemma distinct_py_range: "distinct (py_range n)"
  by (simp add: py_range_def distinct_map)

lemma length_slice_to: "0 \<le> k \<Longrightarrow> k \<le> int (length xs) \<Longrightarrow> int (length (slice_to xs k)) = k"
  by (simp add: slice_to_def)

lemma length_reduce_deck:
  assumes "offset n \<le> int (length cs)"
  shows "int (length (reduce_deck n cs)) = int (length cs) - offset n"
proof -
  consider "n = 4" | "n = 5" | "n = 6" | "n \<noteq> 4 \<and> n \<noteq> 5 \<and> n \<noteq> 6" by blast
  then show ?thesis
  proof cases
    case 1
    with assms have "2 \<le> length cs" by (simp add: offset_def)
    with 1 show ?thesis by (simp add: reduce_deck_def offset_def slice_to_def)
  next
    case 2
    with assms have "23 \<le> length cs" by (simp add: offset_def)
    with 2 show ?thesis by (simp add: reduce_deck_def offset_def slice_to_def)
  next
    case 3
    with assms have "26 \<le> length cs" by (simp add: offset_def)
    with 3 show ?thesis by (simp add: reduce_deck_def offset_def slice_to_def)
  next
    case 4
    then show ?thesis by (simp add: reduce_deck_def offset_def)
  qed
qed

lemma length_usable_deck:
  assumes "\<And>xs. mset (shuffle xs) = mset xs" and "offset (len (players s)) \<le> card_num s"
  shows "int (length (usable_deck shuffle s)) = card_num s - offset (len (players s))"
proof -
  have len: "length (shuffle (py_range (card_num s))) = length (py_range (card_num s))"
    using assms(1) by (metis size_mset)
  have "0 \<le> offset (len (players s))" by (simp add: offset_def)
  with assms(2) have "0 \<le> card_num s" by linarith
  then have "int (length (py_range (card_num s))) = card_num s"
    by (simp add: length_py_range)
  with len assms(2) show ?thesis
    by (simp add: usable_deck_def length_reduce_deck)
qed

lemma distinct_reduce_deck: "distinct cs \<Longrightarrow> distinct (reduce_deck n cs)"
  by (simp add: reduce_deck_def slice_to_def)

lemma distinct_usable_deck:
  assumes "\<And>xs. mset (shuffle xs) = mset xs"
  shows "distinct (usable_deck shuffle s)"
proof -
  have "distinct (shuffle (py_range (card_num s)))"
    using assms distinct_py_range mset_eq_imp_distinct_iff by blast
  then show ?thesis by (simp add: usable_deck_def distinct_reduce_deck)
qed

lemma deal_hands:
  "map cards (iter (fst (deal ps cs)))
     = map (\<lambda>k. take 6 (drop (6 * k) cs)) [0..<len ps]"
proof (induction ps arbitrary: cs)
  case Nil
  show ?case by (simp add: iter_def len_def)
next
  case (Cons p ps)
  show ?case
  proof (cases "valid p")
    case True
    have "[0..<Suc (len ps)] = 0 # map Suc [0..<len ps]"
      by (simp add: upt_conv_Cons map_Suc_upt del: upt_Suc)
    then show ?thesis using True Cons [of "drop 6 cs"]
      by (simp add: iter_def len_def case_prod_unfold add.commute del: upt_Suc)
  next
    case False
    then show ?thesis using Cons [of cs]
      by (simp add: iter_def len_def case_prod_unfold)
  qed
qed

lemma deal_rest: "snd (deal ps cs) = drop (6 * len ps) cs"
proof (induction ps arbitrary: cs)
  case Nil
  show ?case by (simp add: len_def iter_def)
next
  case (Cons p ps)
  show ?case
  proof (cases "valid p")
    case True
    then show ?thesis using Cons [of "drop 6 cs"]
      by (simp add: iter_def len_def case_prod_unfold add.commute)
  next
    case False
    then show ?thesis using Cons [of cs]
      by (simp add: iter_def len_def case_prod_unfold)
  qed
qed

lemma deal_valid: "map valid (fst (deal ps cs)) = map valid ps"
  by (induction ps arbitrary: cs) (simp_all add: case_prod_unfold)

lemma deal_len: "len (fst (deal ps cs)) = len ps"
  by (induction ps arbitrary: cs) (simp_all add: case_prod_unfold len_def iter_def)

lemma deal_concat: "concat (map cards (iter (fst (deal ps cs)))) = take (6 * len ps) cs"
proof (induction ps arbitrary: cs)
  case Nil
  show ?case by (simp add: len_def iter_def)
next
  case (Cons p ps)
  show ?case
  proof (cases "valid p")
    case True
    have "take 6 cs @ take (6 * len ps) (drop 6 cs) = take (6 + 6 * len ps) cs"
      by (simp add: take_add)
    then show ?thesis using True Cons [of "drop 6 cs"]
      by (simp add: iter_def len_def case_prod_unfold)
  next
    case False
    then show ?thesis using Cons [of cs]
      by (simp add: iter_def len_def case_prod_unfold)
  qed
qed


text \<open>
  C3 (amended). For a shuffle that permutes the deck: when the card count is at least the
  offset of the roster size (2 for 4 valid players, 23 for 5, 26 for 6, 0 otherwise), the
  usable deck has card count minus offset cards; for 50 cards these are 48, 27, 24 and
  50 cards.
\<close>

theorem usable_deck_size:
  assumes "\<And>xs. mset (shuffle xs) = mset xs"
  shows "(offset (len (players s)) \<le> card_num s \<longrightarrow>
            int (length (usable_deck shuffle s)) = card_num s - offset (len (players s)))
       \<and> (card_num s = 50 \<longrightarrow>
            length (usable_deck shuffle s)
              = (if len (players s) = 4 then 48 else if len (players s) = 5 then 27
                 else if len (players s) = 6 then 24 else 50))"
proof -
  have "int (length (usable_deck shuffle s)) = 50 - offset (len (players s))" if "card_num s = 50"
    using length_usable_deck [of shuffle s] assms that by (simp add: offset_def)
  then show ?thesis using length_usable_deck [of shuffle s] assms
    by (auto simp: offset_def)
qed

lemma begin_table_len: "n \<le> 7 \<Longrightarrow> len (players (begin_table n)) = n"
  by (simp add: begin_table_def table_def len_def iter_def seat_def new_player_def comp_def)

lemma begin_table_card_num:
  "card_num (begin_table n) = 50" "card_num (configured k (begin_table n)) = k"
  by (simp_all add: card_num_def begin_table_def table_def boot_def configured_def)

theorem usable_deck_size_witness:
  "length (usable_deck (\<lambda>xs. xs) (begin_table 4)) = 48
   \<and> length (usable_deck (\<lambda>xs. xs) (begin_table 5)) = 27
   \<and> length (usable_deck (\<lambda>xs. xs) (begin_table 6)) = 24
   \<and> length (usable_deck (\<lambda>xs. xs) (begin_table 7)) = 50
   \<and> int (length (usable_deck (\<lambda>xs. xs) (configured 98 (begin_table 5)))) = 75"
proof -
  have id: "\<And>xs :: int list. mset ((\<lambda>xs. xs) xs) = mset xs" by simp
  have l5: "len (players (configured 98 (begin_table 5))) = 5"
    using begin_table_len [of 5] by (simp add: configured_def)
  have "offset 5 \<le> card_num (configured 98 (begin_table 5))"
    by (simp add: offset_def begin_table_card_num)
  with usable_deck_size [of "\<lambda>xs. xs" "configured 98 (begin_table 5)", OF id] l5
  have "int (length (usable_deck (\<lambda>xs. xs) (configured 98 (begin_table 5)))) = 98 - offset 5"
    by (simp add: begin_table_card_num)
  then show ?thesis
    using usable_deck_size [of "\<lambda>xs. xs" "begin_table 4", OF id]
      usable_deck_size [of "\<lambda>xs. xs" "begin_table 5", OF id]
      usable_deck_size [of "\<lambda>xs. xs" "begin_table 6", OF id]
      usable_deck_size [of "\<lambda>xs. xs" "begin_table 7", OF id]
    by (simp add: begin_table_len begin_table_card_num offset_def)
qed

text \<open>
  With 5 valid players and 20 cards the slice \<^verbatim>\<open>self.cards[:len(self.cards) - 23]\<close> has a
  negative bound and keeps 17 cards.
\<close>

theorem usable_deck_size_counterexample:
  "len (players (configured 20 (begin_table 5))) = 5
   \<and> card_num (configured 20 (begin_table 5)) = 20
   \<and> length (usable_deck (\<lambda>xs. xs) (configured 20 (begin_table 5))) = 17
   \<and> int (length (usable_deck (\<lambda>xs. xs) (configured 20 (begin_table 5)))) \<noteq> 20 - 23"
proof -
  have l5: "len (players (configured 20 (begin_table 5))) = 5"
    using begin_table_len [of 5] by (simp add: configured_def)
  have "length (py_range 20) = 20" by (simp add: py_range_def)
  then have "length (usable_deck (\<lambda>xs. xs) (configured 20 (begin_table 5))) = 17"
    by (simp add: usable_deck_def l5 begin_table_card_num reduce_deck_def slice_to_def)
  then show ?thesis using l5 by (simp add: begin_table_card_num)
qed

text \<open>
  C2 (amended). For a shuffle that permutes the deck, at deal time the valid players
  receive, in join order, the consecutive blocks of 6 cards from the front of the usable
  deck, and what is left stays in the pool; no card identifier occurs twice in the hands.
  Every valid player receives exactly 6 cards when the usable deck has at least 6 cards
  for each of them, which is so when the card count minus the offset is at least 6 times
  the number of valid players.
\<close>

theorem begin_game_hands:
  assumes "\<And>xs. mset (shuffle xs) = mset xs"
  shows "map cards (iter (players (begin_game shuffle s)))
           = map (\<lambda>k. take 6 (drop (6 * k) (usable_deck shuffle s))) [0..<len (players s)]
       \<and> distinct (concat (map cards (iter (players (begin_game shuffle s)))))
       \<and> server_cards (begin_game shuffle s) = drop (6 * len (players s)) (usable_deck shuffle s)
       \<and> len (players (begin_game shuffle s)) = len (players s)
       \<and> (6 * len (players s) \<le> length (usable_deck shuffle s) \<longrightarrow>
            list_all (\<lambda>p. length (cards p) = 6) (iter (players (begin_game shuffle s))))
       \<and> (offset (len (players s)) \<le> card_num s
            \<and> 6 * int (len (players s)) \<le> card_num s - offset (len (players s)) \<longrightarrow>
            list_all (\<lambda>p. length (cards p) = 6) (iter (players (begin_game shuffle s))))"
proof -
  let ?D = "usable_deck shuffle s"
  have pl: "players (begin_game shuffle s) = fst (deal (players s) ?D)"
    and sc: "server_cards (begin_game shuffle s) = snd (deal (players s) ?D)"
    by (simp_all add: begin_game_def case_prod_unfold)
  have hands: "map cards (iter (players (begin_game shuffle s)))
           = map (\<lambda>k. take 6 (drop (6 * k) ?D)) [0..<len (players s)]"
    by (simp add: pl deal_hands)
  have "distinct (take (6 * len (players s)) ?D)"
    using distinct_usable_deck [of shuffle s] assms by simp
  then have dist: "distinct (concat (map cards (iter (players (begin_game shuffle s)))))"
    by (simp add: pl deal_concat)
  have ln: "len (players (begin_game shuffle s)) = len (players s)"
    by (simp add: pl deal_len)
  have six: "list_all (\<lambda>p. length (cards p) = 6) (iter (players (begin_game shuffle s)))"
    if "6 * len (players s) \<le> length ?D"
  proof -
    have "\<forall>h \<in> set (map cards (iter (players (begin_game shuffle s)))). length h = 6"
      unfolding hands using that by auto
    then show ?thesis by (simp add: list_all_iff)
  qed
  have enough: "6 * len (players s) \<le> length ?D"
    if "offset (len (players s)) \<le> card_num s"
      and "6 * int (len (players s)) \<le> card_num s - offset (len (players s))"
  proof -
    have "int (length ?D) = card_num s - offset (len (players s))"
      using length_usable_deck [of shuffle s] assms that(1) by simp
    with that(2) have "int (6 * len (players s)) \<le> int (length ?D)" by simp
    then show ?thesis by (simp only: of_nat_le_iff)
  qed
  show ?thesis using hands dist sc ln six enough by (simp add: deal_rest)
qed

theorem begin_game_hands_witness:
  "list_all (\<lambda>p. length (cards p) = 6) (iter (players (begin_game (\<lambda>xs. xs) (begin_table 4))))
   \<and> distinct (concat (map cards (iter (players (begin_game (\<lambda>xs. xs) (begin_table 4))))))
   \<and> length (server_cards (begin_game (\<lambda>xs. xs) (begin_table 4))) = 24"
proof -
  have id: "\<And>xs :: int list. mset ((\<lambda>xs. xs) xs) = mset xs" by simp
  have "offset 4 \<le> card_num (begin_table 4) \<and> 6 * int 4 \<le> card_num (begin_table 4) - offset 4"
    by (simp add: begin_table_card_num offset_def)
  moreover have "int (length (usable_deck (\<lambda>xs. xs) (begin_table 4))) = 50 - offset 4"
    using length_usable_deck [of "\<lambda>xs. xs" "begin_table 4"]
    by (simp add: begin_table_card_num begin_table_len offset_def)
  then have "length (usable_deck (\<lambda>xs. xs) (begin_table 4)) = 48"
    by (simp add: offset_def)
  moreover note h = begin_game_hands [of "\<lambda>xs. xs" "begin_table 4", OF id]
  ultimately have six: "list_all (\<lambda>p. length (cards p) = 6)
      (iter (players (begin_game (\<lambda>xs. xs) (begin_table 4))))"
    by (simp add: begin_table_len)
  from h have dist: "distinct (concat (map cards (iter (players (begin_game (\<lambda>xs. xs) (begin_table 4))))))"
    by blast
  from h have "server_cards (begin_game (\<lambda>xs. xs) (begin_table 4))
                 = drop (6 * len (players (begin_table 4))) (usable_deck (\<lambda>xs. xs) (begin_table 4))"
    by blast
  with \<open>length (usable_deck (\<lambda>xs. xs) (begin_table 4)) = 48\<close>
  have "length (server_cards (begin_game (\<lambda>xs. xs) (begin_table 4))) = 24"
    by (simp add: begin_table_len)
  with six dist show ?thesis by blast
qed

text \<open>
  With 5 valid players and the 50 cards that an unconfigured card set has, the usable deck
  has 27 cards and the fifth player receives 3.
\<close>

lemma begin_table_five_hands:
  "map cards (iter (fst (deal (players (begin_table 5)) (take 27 (py_range 50)))))
     = [[0, 1, 2, 3, 4, 5], [6, 7, 8, 9, 10, 11], [12, 13, 14, 15, 16, 17],
        [18, 19, 20, 21, 22, 23], [24, 25, 26]]"
  by (simp add: deal_hands begin_table_len py_range_def upt_rec)

theorem begin_game_hands_counterexample:
  "len (players (begin_table 5)) = 5
   \<and> card_num (begin_table 5) = 50
   \<and> map (\<lambda>p. length (cards p)) (iter (players (begin_game (\<lambda>xs. xs) (begin_table 5))))
       = [6, 6, 6, 6, 3]"
proof -
  have "length (py_range 50) = 50" by (simp add: py_range_def)
  then have "usable_deck (\<lambda>xs. xs) (begin_table 5) = take 27 (py_range 50)"
    by (simp add: usable_deck_def begin_table_len begin_table_card_num reduce_deck_def
        slice_to_def)
  then have "players (begin_game (\<lambda>xs. xs) (begin_table 5))
               = fst (deal (players (begin_table 5)) (take 27 (py_range 50)))"
    by (simp add: begin_game_def case_prod_unfold)
  then have "map (\<lambda>p. length (cards p)) (iter (players (begin_game (\<lambda>xs. xs) (begin_table 5))))
               = map length [[0, 1, 2, 3, 4, 5], [6, 7, 8, 9, 10, 11], [12, 13, 14, 15, 16, 17],
                   [18, 19, 20, 21, 22, 23], [24, 25, 26 :: int]]"
  proof -
    assume eq: "players (begin_game (\<lambda>xs. xs) (begin_table 5))
               = fst (deal (players (begin_table 5)) (take 27 (py_range 50)))"
    have "map (\<lambda>p. length (cards p)) (iter (players (begin_game (\<lambda>xs. xs) (begin_table 5))))
            = map length (map cards (iter (players (begin_game (\<lambda>xs. xs) (begin_table 5)))))"
      by simp
    also have "\<dots> = map length [[0, 1, 2, 3, 4, 5], [6, 7, 8, 9, 10, 11], [12, 13, 14, 15, 16, 17],
                   [18, 19, 20, 21, 22, 23], [24, 25, 26 :: int]]"
      unfolding eq begin_table_five_hands ..
    finally show ?thesis .
  qed
  then show ?thesis by (simp add: begin_table_len begin_table_card_num)
qed

subsection \<open>The dead-player sweep\<close>

lemma send_all_eq: "send_all c ms tr = tr @ map (Sent (csock c)) ms"
  by (induction ms arbitrary: tr) (simp_all add: conn_send_def)

lemma first_dead_None:
  "first_dead ps k = Inr None \<longleftrightarrow> (\<forall>p \<in> set ps. verify p = Inr True)"
  by (induction ps arbitrary: k) (auto split: sum.splits)

lemma first_dead_Some:
  "first_dead ps k0 = Inr (Some k) \<Longrightarrow>
     \<exists>i. k = k0 + i \<and> i < length ps \<and> verify (ps ! i) = Inr False
         \<and> (\<forall>j < i. verify (ps ! j) = Inr True)"
proof (induction ps arbitrary: k0)
  case Nil
  then show ?case by simp
next
  case (Cons p ps)
  show ?case
  proof (cases "verify p = Inr True")
    case True
    with Cons.prems have "first_dead ps (Suc k0) = Inr (Some k)" by simp
    from Cons.IH [OF this] obtain i where i: "k = Suc k0 + i" "i < length ps"
      "verify (ps ! i) = Inr False" "\<forall>j < i. verify (ps ! j) = Inr True" by blast
    have "\<forall>j < Suc i. verify ((p # ps) ! j) = Inr True"
      using True i(4) by (simp add: nth_Cons split: nat.splits)
    with i show ?thesis by (intro exI [of _ "Suc i"]) simp
  next
    case False
    with Cons.prems have "k = k0" "verify p = Inr False"
      by (auto split: sum.splits if_splits)
    then show ?thesis by (intro exI [of _ 0]) simp
  qed
qed

lemma first_dead_Some0:
  "first_dead ps 0 = Inr (Some k) \<Longrightarrow>
     k < length ps \<and> verify (ps ! k) = Inr False \<and> (\<forall>j < k. verify (ps ! j) = Inr True)"
  using first_dead_Some [of ps 0 k] by auto

lemma verify_deliver: "map verify (deliver d ps) = map verify ps"
  by (simp add: deliver_def for_each_def verify_def send_message_def)



lemma broadcast_list: "broadcast (lit ''#PLAYER_LIST'') info ps = Inr (deliver (lit ''PLAYER_LIST '' @ player_lst ps) ps)"
  by (simp add: broadcast_def Let_def)

lemma check_Some:
  assumes "first_dead (players s) 0 = Inr (Some k)" and "check s = Inr s'"
  shows "s' = swept k s"
  using assms
  by (auto simp: check_def swept_def push_buffer_def stop_def Let_def broadcast_list send_all_eq
      conn_close_def simp del: lit_def split: option.splits if_splits)

lemma check_None: "first_dead (players s) 0 = Inr None \<Longrightarrow> check s = Inr s"
  by (simp add: check_def)

lemma check_cases:
  assumes "check s = Inr s'"
  shows "(first_dead (players s) 0 = Inr None \<and> s' = s)
       \<or> (\<exists>k. first_dead (players s) 0 = Inr (Some k) \<and> s' = swept k s)"
proof (cases "first_dead (players s) 0")
  case (Inl e)
  with assms show ?thesis by (simp add: check_def)
next
  case (Inr r)
  show ?thesis
  proof (cases r)
    case None
    with Inr assms show ?thesis by (simp add: check_def)
  next
    case (Some k)
    with Inr assms check_Some [of s k s'] show ?thesis by simp
  qed
qed

lemma check_total:
  assumes "\<forall>p \<in> set (players s). conn p \<noteq> None \<and> sockets s (player_socket p) \<noteq> None"
  shows "\<exists>s'. check s = Inr s'"
proof -
  have fd: "\<exists>r. first_dead ps k = Inr r" if "\<forall>p \<in> set ps. conn p \<noteq> None" for ps k
    using that by (induction ps arbitrary: k) (auto simp: verify_def split: sum.splits)
  from assms obtain r where r: "first_dead (players s) 0 = Inr r" using fd by blast
  show ?thesis
  proof (cases r)
    case None
    with r show ?thesis by (simp add: check_def)
  next
    case (Some k)
    with r first_dead_Some0 have "k < length (players s)" by blast
    then have "players s ! k \<in> set (players s)" by simp
    with assms have "conn (players s ! k) \<noteq> None"
      "sockets s (player_socket (players s ! k)) \<noteq> None" by auto
    with r Some show ?thesis
      by (auto simp: check_def push_buffer_def stop_def Let_def broadcast_list simp del: lit_def
          split: option.splits)
  qed
qed

lemmas sample_defs = sweep_table_def midgame_def lobby_def table_def boot_def seat_def gone_def
  new_player_def new_connection_def

lemma first_dead_samples:
  "first_dead (players lobby) 0 = Inr (Some 0)"
  "first_dead (players midgame) 0 = Inr (Some 0)"
  "first_dead (players sweep_table) 0 = Inr (Some 1)"
  by (simp_all add: sample_defs verify_def)

lemma check_samples:
  "check lobby = Inr (swept 0 lobby)"
  "check midgame = Inr (swept 0 midgame)"
  "check sweep_table = Inr (swept 1 sweep_table)"
proof -
  have "\<exists>s'. check lobby = Inr s'" by (rule check_total) (simp add: sample_defs)
  then show "check lobby = Inr (swept 0 lobby)"
    using check_Some [OF first_dead_samples(1)] by blast
  have "\<exists>s'. check midgame = Inr s'" by (rule check_total) (simp add: sample_defs)
  then show "check midgame = Inr (swept 0 midgame)"
    using check_Some [OF first_dead_samples(2)] by blast
  have "\<exists>s'. check sweep_table = Inr s'" by (rule check_total) (simp add: sample_defs)
  then show "check sweep_table = Inr (swept 1 sweep_table)"
    using check_Some [OF first_dead_samples(3)] by blast
qed

text \<open>
  C9. When the sweep removes a player (the first that does not verify) whose status is
  \<^verbatim>\<open>MASTER\<close> while the phase is \<^verbatim>\<open>PLAYER_CONN\<close>, the phase becomes \<^verbatim>\<open>ERROR\<close>; a master
  removed in any other phase leaves the phase as it is, and so does the removal of a
  player that is not the master.
\<close>

theorem check_master_phase:
  assumes "check s = Inr s'" and "first_dead (players s) 0 = Inr (Some k)"
  shows "map number (players s') = remove_at k (map number (players s))
       \<and> (status (players s ! k) = MASTER \<and> game_state s = PLAYER_CONN \<longrightarrow> game_state s' = ERROR)
       \<and> (status (players s ! k) = MASTER \<and> game_state s \<noteq> PLAYER_CONN \<longrightarrow>
            game_state s' = game_state s)
       \<and> (status (players s ! k) \<noteq> MASTER \<longrightarrow> game_state s' = game_state s)"
proof -
  have s': "s' = swept k s" using check_Some [OF assms(2) assms(1)] .
  have "map number (deliver d ps) = map number ps" for d ps
    by (simp add: deliver_def for_each_def send_message_def)
  then have "map number (players s') = remove_at k (map number (players s))"
    by (simp add: s' swept_def Let_def remove_at_def take_map drop_map)
  then show ?thesis by (simp add: s' swept_def Let_def)
qed

theorem check_master_phase_witness:
  "first_dead (players lobby) 0 = Inr (Some 0)
   \<and> status (players lobby ! 0) = MASTER \<and> game_state lobby = PLAYER_CONN
   \<and> game_state (swept 0 lobby) = ERROR
   \<and> check lobby = Inr (swept 0 lobby)
   \<and> game_state midgame = GAME
   \<and> check midgame = Inr (swept 0 midgame)
   \<and> game_state (swept 0 midgame) = GAME"
proof -
  have a: "status (players lobby ! 0) = MASTER \<and> game_state lobby = PLAYER_CONN"
    by (simp add: sample_defs)
  have b: "status (players midgame ! 0) = MASTER \<and> game_state midgame = GAME"
    by (simp add: sample_defs)
  from check_master_phase [OF check_samples(1) first_dead_samples(1)] a
  have "game_state (swept 0 lobby) = ERROR" by blast
  moreover from check_master_phase [OF check_samples(2) first_dead_samples(2)] b
  have "game_state (swept 0 midgame) = GAME" by simp
  ultimately show ?thesis using a b check_samples first_dead_samples by simp
qed




lemma all_verify_after:
  assumes "length (filter (\<lambda>p. verify p \<noteq> Inr True) ps) \<le> 1"
    and "k < length ps" and "verify (ps ! k) \<noteq> Inr True"
  shows "\<forall>p \<in> set (remove_at k ps). verify p = Inr True"
proof -
  let ?bad = "\<lambda>p. verify p \<noteq> Inr True"
  have "length (filter ?bad (take k ps @ ps ! k # drop (Suc k) ps)) = length (filter ?bad ps)"
    using assms(2) by (simp only: id_take_nth_drop [symmetric])
  moreover have "length (filter ?bad (take k ps @ ps ! k # drop (Suc k) ps))
      = length (filter ?bad (take k ps)) + 1 + length (filter ?bad (drop (Suc k) ps))"
    using assms(3) by simp
  ultimately have "length (filter ?bad (take k ps)) = 0" "length (filter ?bad (drop (Suc k) ps)) = 0"
    using assms(1) by linarith+
  then have "\<forall>p \<in> set (take k ps). verify p = Inr True"
    "\<forall>p \<in> set (drop (Suc k) ps). verify p = Inr True"
    by (simp_all add: filter_empty_conv)
  then show ?thesis
    by (simp add: remove_at_def) blast
qed

text \<open>
  C8 (amended). When at most one player of the roster does not verify, calling the sweep
  twice in a row gives the same state (roster, socket table, phase, buffers, trace), or
  the same error, as calling it once.
\<close>

theorem sweep_twice_single:
  assumes "length (filter (\<lambda>p. verify p \<noteq> Inr True) (players s)) \<le> 1"
  shows "sweep_twice s = check s"
proof (cases "check s")
  case (Inl e)
  then show ?thesis by (simp add: sweep_twice_def)
next
  case (Inr s')
  from check_cases [OF Inr] show ?thesis
  proof
    assume "first_dead (players s) 0 = Inr None \<and> s' = s"
    with Inr show ?thesis by (simp add: sweep_twice_def)
  next
    assume "\<exists>k. first_dead (players s) 0 = Inr (Some k) \<and> s' = swept k s"
    then obtain k where fd: "first_dead (players s) 0 = Inr (Some k)" and s': "s' = swept k s"
      by blast
    from first_dead_Some0 [OF fd] have k: "k < length (players s)"
      "verify (players s ! k) \<noteq> Inr True" by simp_all
    from all_verify_after [OF assms k]
    have rest: "\<forall>p \<in> set (remove_at k (players s)). verify p = Inr True" .
    have "\<forall>p \<in> set (players s'). verify p = Inr True"
    proof (cases "game_state s' = PLAYER_CONN")
      case True
      then have "map verify (players s') = map verify (remove_at k (players s))"
        by (simp add: s' swept_def Let_def verify_deliver split: if_splits)
      moreover have "\<forall>v \<in> set (map verify (remove_at k (players s))). v = Inr True"
        using rest by simp
      ultimately have "\<forall>v \<in> set (map verify (players s')). v = Inr True" by simp
      then show ?thesis by simp
    next
      case False
      then have "players s' = remove_at k (players s)"
        by (simp add: s' swept_def Let_def split: if_splits)
      with rest show ?thesis by simp
    qed
    then have "first_dead (players s') 0 = Inr None" by (simp add: first_dead_None)
    then have "check s' = Inr s'" by (rule check_None)
    with Inr show ?thesis by (simp add: sweep_twice_def)
  qed
qed

theorem sweep_twice_single_witness:
  "length (filter (\<lambda>p. verify p \<noteq> Inr True) (players lobby)) = 1
   \<and> sweep_twice lobby = Inr (swept 0 lobby)
   \<and> check lobby = Inr (swept 0 lobby)"
proof -
  have one: "length (filter (\<lambda>p. verify p \<noteq> Inr True) (players lobby)) = 1"
    by (simp add: sample_defs verify_def)
  then have "length (filter (\<lambda>p. verify p \<noteq> Inr True) (players lobby)) \<le> 1" by simp
  from sweep_twice_single [OF this] one check_samples(1) show ?thesis by simp
qed

text \<open>
  With two invalid players the first call removes player 1 and the second call removes
  player 2.
\<close>

theorem sweep_twice_counterexample:
  "roster (check sweep_table) = Inr [(0, True), (2, False)]
   \<and> roster (sweep_twice sweep_table) = Inr [(0, True)]
   \<and> sweep_twice sweep_table \<noteq> check sweep_table"
proof -
  have pl1: "players (swept 1 sweep_table)
     = [seat 0 WAIT_VOTE [] None None, gone (seat 2 WAIT_VOTE [] None None)]"
    by (simp add: swept_def Let_def) (simp add: sweep_table_def table_def boot_def remove_at_def)
  then have one: "roster (check sweep_table) = Inr [(0, True), (2, False)]"
    by (simp add: check_samples roster_def) (simp add: seat_def gone_def new_player_def)
  have fd: "first_dead (players (swept 1 sweep_table)) 0 = Inr (Some 1)"
    unfolding pl1 by (simp add: seat_def gone_def new_player_def new_connection_def verify_def)
  have "\<exists>s'. check (swept 1 sweep_table) = Inr s'"
  proof (rule check_total)
    have "sockets (swept 1 sweep_table) = (sockets sweep_table)(11 := None)"
      by (simp add: swept_def Let_def) (simp add: sample_defs)
    then show "\<forall>p\<in>set (players (swept 1 sweep_table)).
       conn p \<noteq> None \<and> sockets (swept 1 sweep_table) (player_socket p) \<noteq> None"
      unfolding pl1 by (simp add: sample_defs)
  qed
  then have two: "check (swept 1 sweep_table) = Inr (swept 1 (swept 1 sweep_table))"
    using check_Some [OF fd] by blast
  have "sweep_twice sweep_table = check (swept 1 sweep_table)"
    by (simp add: sweep_twice_def check_samples)
  then have st: "sweep_twice sweep_table = Inr (swept 1 (swept 1 sweep_table))"
    using two by simp
  have "players (swept 1 (swept 1 sweep_table)) = [seat 0 WAIT_VOTE [] None None]"
    by (simp add: swept_def [of 1 "swept 1 sweep_table"] Let_def pl1 remove_at_def)
      (simp add: swept_def Let_def, simp add: sample_defs remove_at_def)
  then have "roster (sweep_twice sweep_table) = Inr [(0, True)]"
    by (simp add: st roster_def) (simp add: seat_def new_player_def)
  moreover from this one have "sweep_twice sweep_table \<noteq> check sweep_table"
    by (metis list.inject sum.inject list.distinct(1))
  ultimately show ?thesis using one by simp
qed

subsection \<open>Scoring\<close>

lemma incr_apply:
  "incr r k k' = (if k' = k then map_option (\<lambda>v. v + 1) (r k) else r k')"
  by (simp add: incr_def split: option.splits)

lemma count_step_apply:
  "count_step cp i w r k
     = (if k = number i \<and> number w \<noteq> cp \<and> selected_card w = current_card i
        then map_option (\<lambda>v. v + 1) (r k) else r k)"
  by (auto simp: count_step_def incr_apply)

lemma fooled_Cons:
  "fooled (w # ws) cp i
     = (if number w \<noteq> cp \<and> selected_card w = current_card i then 1 else 0) + fooled ws cp i"
  by (simp add: fooled_def)

lemma inner_fold:
  "fold (count_step cp i) ws r k
     = (if k = number i then map_option (\<lambda>v. v + fooled ws cp i) (r k) else r k)"
proof (induction ws arbitrary: r)
  case Nil
  show ?case by (simp add: fooled_def option.map_ident)
next
  case (Cons w ws)
  have "fold (count_step cp i) (w # ws) r k = fold (count_step cp i) ws (count_step cp i w r) k"
    by simp
  also have "\<dots> = (if k = number i
                    then map_option (\<lambda>v. v + fooled ws cp i) (count_step cp i w r k)
                    else count_step cp i w r k)"
    by (rule Cons)
  also have "\<dots> = (if k = number i then map_option (\<lambda>v. v + fooled (w # ws) cp i) (r k) else r k)"
    by (simp add: count_step_apply fooled_Cons option.map_comp comp_def add.assoc)
  finally show ?case .
qed

lemma outer_fold:
  "fold (\<lambda>i r. fold (count_step cp i) vs r) us r k
     = map_option (\<lambda>v. v + sum_list (map (fooled vs cp) (filter (\<lambda>i. number i = k) us))) (r k)"
proof (induction us arbitrary: r)
  case Nil
  show ?case by (simp add: option.map_ident)
next
  case (Cons u us)
  let ?F = "\<lambda>i r. fold (count_step cp i) vs r"
  have "fold ?F (u # us) r k = fold ?F us (fold (count_step cp u) vs r) k"
    by simp
  also have "\<dots> = map_option (\<lambda>v. v + sum_list (map (fooled vs cp) (filter (\<lambda>i. number i = k) us)))
                      (fold (count_step cp u) vs r k)"
    by (rule Cons)
  also have "\<dots> = map_option (\<lambda>v. v + sum_list (map (fooled vs cp) (filter (\<lambda>i. number i = k) (u # us))))
                      (r k)"
    by (simp add: inner_fold option.map_comp comp_def add.assoc)
  finally show ?case .
qed

lemma filter_number:
  "distinct (map number xs) \<Longrightarrow> x \<in> set xs \<Longrightarrow> filter (\<lambda>i. number i = number x) xs = [x]"
proof (induction xs)
  case Nil
  then show ?case by simp
next
  case (Cons a xs)
  show ?case
  proof (cases "a = x")
    case True
    with Cons.prems have "number x \<notin> number ` set xs" by simp
    then have "\<forall>i \<in> set xs. number i \<noteq> number x" by (metis imageI)
    then have "filter (\<lambda>i. number i = number x) xs = []" by (simp add: filter_empty_conv)
    with True show ?thesis by simp
  next
    case False
    with Cons.prems have "x \<in> set xs" "number a \<noteq> number x" by auto
    with Cons show ?thesis by simp
  qed
qed

lemma result_init: "map_of (map (\<lambda>p. (number p, 0::int)) vs) k
    = (if k \<in> number ` set vs then Some 0 else None)"
  by (induction vs) auto

lemma count_votes_eq:
  assumes "distinct (map number vs)" and "i \<in> set vs"
  shows "count_votes cp vs (number i) = Some (fooled vs cp i)"
  using assms by (simp add: count_votes_def outer_fold result_init filter_number)

lemma find_number:
  "distinct (map number xs) \<Longrightarrow> x \<in> set xs \<Longrightarrow> find (\<lambda>p. number p = number x) xs = Some x"
  by (induction xs) auto

lemma same_number:
  "distinct (map number xs) \<Longrightarrow> x \<in> set xs \<Longrightarrow> y \<in> set xs \<Longrightarrow> number x = number y \<Longrightarrow> x = y"
  by (meson distinct_map inj_onD)

lemma fooled_add_score [simp]: "fooled vs st (add_score v p) = fooled vs st p"
  by (simp add: fooled_def add_score_def)

lemma calculate_result_eq:
  assumes "distinct (map number (players s))"
    and "current_player s = Some cp"
    and "story \<in> set (iter (players s))" and "number story = cp"
  shows "calculate_result s
           = Inr (s\<lparr>players := map (\<lambda>p. if valid p
                                        then p\<lparr>score := score p + gain (iter (players s)) story p\<rparr>
                                        else p) (players s)\<rparr>)"
proof -
  let ?ps = "players s"
  let ?vs = "iter ?ps"
  have dv: "distinct (map number ?vs)"
    using assms(1) by (simp add: iter_def distinct_map_filter)
  have res: "count_votes cp ?vs (number i) = Some (fooled ?vs cp i)" if "i \<in> set ?ps" "valid i" for i
    using count_votes_eq [OF dv, of i cp] that by (simp add: iter_def)
  have story: "story \<in> set ?ps" "valid story" using assms(3) by (simp_all add: iter_def)
  have rc: "count_votes cp ?vs cp = Some (fooled ?vs cp story)"
    using res [OF story] assms(4) by simp
  have lk: "lookup cp ?vs = Some story"
    using find_number [OF dv assms(3)] assms(4) by (simp add: lookup_def)
  have is_story: "p = story" if "p \<in> set ?ps" "number p = cp" for p
    using same_number [OF assms(1) that(1) story(1)] that(2) assms(4) by simp
  show ?thesis
  proof (cases "fooled ?vs cp story = int (len ?ps) - 1")
    case True
    have "for_each (\<lambda>player. if number player \<noteq> cp then add_score 3 player else player) ?ps
            = map (\<lambda>p. if valid p then p\<lparr>score := score p + gain ?vs story p\<rparr> else p) ?ps"
      unfolding for_each_def
      using True assms(4) by (intro map_cong) (auto simp: gain_def Let_def add_score_def len_def)
    then show ?thesis
      using True by (simp add: calculate_result_def assms(2) Let_def rc lk)
  next
    case False
    let ?f = "\<lambda>player. if number player \<noteq> cp
                          then (if selected_card player = current_card story
                                then add_score 3 player else player)
                          else player"
    let ?g = "\<lambda>i. case count_votes cp ?vs (number i) of None \<Rightarrow> i | Some v \<Rightarrow> add_score v i"
    let ?ps1 = "if fooled ?vs cp story \<noteq> 0 then update_ref cp (add_score 3) (for_each ?f ?ps) else ?ps"
    have step: "calculate_result s = Inr (s\<lparr>players := for_each ?g ?ps1\<rparr>)"
      using False by (simp add: calculate_result_def assms(2) Let_def rc lk)
    have nonneg: "0 \<le> fooled ?vs cp story" by (simp add: fooled_def)
    have "for_each ?g ?ps1
            = map (\<lambda>p. if valid p then p\<lparr>score := score p + gain ?vs story p\<rparr> else p) ?ps"
    proof (cases "fooled ?vs cp story \<noteq> 0")
      case True
      have "for_each ?g (update_ref cp (add_score 3) (for_each ?f ?ps))
              = map (\<lambda>p. if valid p then p\<lparr>score := score p + gain ?vs story p\<rparr> else p) ?ps"
        unfolding for_each_def update_ref_def map_map comp_def
      proof (intro map_cong refl)
        fix p assume p: "p \<in> set ?ps"
        show "(if valid (if number (if valid p then ?f p else p) = cp
                         then add_score 3 (if valid p then ?f p else p)
                         else (if valid p then ?f p else p))
               then ?g (if number (if valid p then ?f p else p) = cp
                        then add_score 3 (if valid p then ?f p else p)
                        else (if valid p then ?f p else p))
               else (if number (if valid p then ?f p else p) = cp
                     then add_score 3 (if valid p then ?f p else p)
                     else (if valid p then ?f p else p)))
              = (if valid p then p\<lparr>score := score p + gain ?vs story p\<rparr> else p)"
        proof (cases "valid p")
          case v: True
          note r = res [OF p v]
          show ?thesis
          proof (cases "number p = cp")
            case True
            then show ?thesis
              using v r False \<open>fooled ?vs cp story \<noteq> 0\<close> nonneg assms(4)
              by (simp add: add_score_def gain_def Let_def len_def)
          next
            case False
            then show ?thesis
              using v r \<open>fooled ?vs cp story \<noteq> int (len ?ps) - 1\<close> \<open>fooled ?vs cp story \<noteq> 0\<close>
                nonneg assms(4)
              by (simp add: add_score_def gain_def Let_def len_def)
          qed
        next
          case nv: False
          with is_story [OF p] story(2) have "number p \<noteq> cp" by blast
          with nv show ?thesis by simp
        qed
      qed
      with True show ?thesis by simp
    next
      case zero: False
      have "for_each ?g ?ps
              = map (\<lambda>p. if valid p then p\<lparr>score := score p + gain ?vs story p\<rparr> else p) ?ps"
        unfolding for_each_def
      proof (intro map_cong refl)
        fix p assume p: "p \<in> set ?ps"
        show "(if valid p then ?g p else p)
                = (if valid p then p\<lparr>score := score p + gain ?vs story p\<rparr> else p)"
          using res [OF p] zero False assms(4)
          by (simp add: add_score_def gain_def Let_def len_def)
      qed
      with zero show ?thesis by simp
    qed
    with step show ?thesis by simp
  qed
qed


lemma broadcast_plain:
  "data \<noteq> lit ''#PLAYER_LIST'' \<Longrightarrow> data \<noteq> lit ''#SELF'' \<Longrightarrow> broadcast data info ps = Inr (deliver data ps)"
  by (simp add: broadcast_def)

lemma score_deliver: "map score (deliver d ps) = map score ps"
  by (simp add: deliver_def for_each_def send_message_def)

lemma number_deliver: "map number (deliver d ps) = map number ps"
  by (simp add: deliver_def for_each_def send_message_def)

lemma lookup_Some_iff:
  "distinct (map number ps) \<Longrightarrow> x \<in> set ps \<Longrightarrow> lookup (number x) ps = Some x"
  by (simp add: lookup_def find_number)

lemma lookup_exists:
  "n \<in> number ` set ps \<Longrightarrow> \<exists>x. lookup n ps = Some x"
  unfolding lookup_def by (induction ps) auto

lemma storyteller_check_ok:
  assumes "distinct (map number (players s))" and "current_player s = Some cp"
    and "story \<in> set (players s)" and "number story = cp" and "verify story = Inr True"
  shows "storyteller_check s = Inr s"
  using lookup_Some_iff [OF assms(1,3)] assms(2,4,5)
  by (simp add: storyteller_check_def verify_ref_def)

lemma vote_sync_scores:
  assumes "calculate_result s = Inr s1" and "current_player s = Some cp"
    and "current_player s1 = Some cp" and "cp \<in> number ` set (players s1)"
  shows "\<exists>s'. vote_sync s = Inr s' \<and> map score (players s') = map score (players s1)
           \<and> list_all (\<lambda>p. state p = WAIT_NEXT_TURN) (iter (players s'))"
proof -
  from lookup_exists [OF assms(4)] obtain st where st: "lookup cp (players s1) = Some st" by blast
  let ?d = "status_message st (players s1)"
  have b: "broadcast ?d None (players s1) = Inr (deliver ?d (players s1))"
    by (rule broadcast_plain) (simp_all add: status_message_def)
  let ?ps = "for_each (\<lambda>player. player\<lparr>state := WAIT_NEXT_TURN\<rparr>) (deliver ?d (players s1))"
  have vs: "vote_sync s = Inr (s1\<lparr>players := ?ps\<rparr>)"
    by (simp add: vote_sync_def assms(1,3) st b)
  have "map score ?ps = map score (deliver ?d (players s1))"
    by (simp add: for_each_def)
  then have sc: "map score ?ps = map score (players s1)" by (simp add: score_deliver)
  have "list_all (\<lambda>p. state p = WAIT_NEXT_TURN) (iter (for_each (\<lambda>player. player\<lparr>state := WAIT_NEXT_TURN\<rparr>) qs))" for qs
    by (induction qs) (simp_all add: iter_def for_each_def)
  with vs sc show ?thesis by simp
qed


text \<open>
  C1. In a roster whose players have different numbers, with a valid storyteller: the
  scoring step returns without an error and changes nothing but the scores of the valid
  players, each by its \<open>gain\<close>: with \<open>correct\<close> the votes for the storyteller's card and
  \<open>N\<close> the number of valid players, if \<open>correct = N - 1\<close> every other player gains 3 and
  the storyteller nothing; otherwise, if \<open>correct > 0\<close>, the storyteller and every other
  player whose vote is the storyteller's card gain 3, and in this whole branch every
  player \<open>i\<close> gains \<open>fooled i\<close> in addition. When the valid players are synchronized on
  \<^verbatim>\<open>VOTE_SYNC\<close> and the storyteller verifies, the orchestrator performs this step, and the
  scores after it are these.
\<close>

theorem calculate_result_scores:
  assumes "distinct (map number (players s))"
    and "current_player s = Some cp"
    and "story \<in> set (iter (players s))" and "number story = cp"
  shows "calculate_result s
           = Inr (s\<lparr>players := map (\<lambda>p. if valid p
                                        then p\<lparr>score := score p + gain (iter (players s)) story p\<rparr>
                                        else p) (players s)\<rparr>)
       \<and> (get_sync_state s = Some VOTE_SYNC \<and> verify story = Inr True \<longrightarrow>
            (\<exists>s'. global_operations rnd s = Inr s'
                \<and> map score (players s')
                    = map (\<lambda>p. if valid p then score p + gain (iter (players s)) story p
                               else score p) (players s)
                \<and> list_all (\<lambda>p. state p = WAIT_NEXT_TURN) (iter (players s'))))"
proof -
  let ?scored = "map (\<lambda>p. if valid p then p\<lparr>score := score p + gain (iter (players s)) story p\<rparr>
                           else p) (players s)"
  have cr: "calculate_result s = Inr (s\<lparr>players := ?scored\<rparr>)"
    by (rule calculate_result_eq [OF assms])
  have story: "story \<in> set (players s)" using assms(3) by (simp add: iter_def)
  have orch: "\<exists>s'. global_operations rnd s = Inr s'
                \<and> map score (players s')
                    = map (\<lambda>p. if valid p then score p + gain (iter (players s)) story p
                               else score p) (players s)
                \<and> list_all (\<lambda>p. state p = WAIT_NEXT_TURN) (iter (players s'))"
    if sync: "get_sync_state s = Some VOTE_SYNC" and ok: "verify story = Inr True"
  proof -
    have sc: "storyteller_check s = Inr s"
      by (rule storyteller_check_ok [OF assms(1,2) story assms(4) ok])
    have go: "global_operations rnd s = vote_sync s"
      by (simp add: global_operations_def sc sync)
    have "map number ?scored = map number (players s)" by simp
    then have "set (map number ?scored) = set (map number (players s))" by (rule arg_cong)
    moreover have "cp \<in> set (map number (players s))" using story assms(4) by force
    ultimately have "cp \<in> set (map number ?scored)" by blast
    then have mem0: "cp \<in> number ` set ?scored" by (simp only: set_map)
    have "players (s\<lparr>players := ?scored\<rparr>) = ?scored" by simp
    with mem0 have mem: "cp \<in> number ` set (players (s\<lparr>players := ?scored\<rparr>))"
      by (simp only:)
    from vote_sync_scores [OF cr assms(2) _ mem] assms(2)
    obtain s' where s': "vote_sync s = Inr s'"
      "map score (players s') = map score (players (s\<lparr>players := ?scored\<rparr>))"
      "list_all (\<lambda>p. state p = WAIT_NEXT_TURN) (iter (players s'))"
      by auto
    have "map score ?scored
            = map (\<lambda>p. if valid p then score p + gain (iter (players s)) story p else score p)
                (players s)"
      by simp
    with s' go show ?thesis by simp
  qed
  from cr orch show ?thesis by blast
qed

lemma vote_table_players:
  "players (vote_table a b c)
     = [(seat 0 VOTE_SYNC [10, 20] (Some 10) (Some (- 1)))\<lparr>has_turn := True\<rparr>,
        seat 1 VOTE_SYNC [11, 21] (Some 11) (Some a),
        seat 2 VOTE_SYNC [12, 22] (Some 12) (Some b),
        seat 3 VOTE_SYNC [13, 23] (Some 13) (Some c)]"
  "current_player (vote_table a b c) = Some 0"
  by (simp_all add: vote_table_def table_def)

lemma vote_table_scores:
  "map_sum id (\<lambda>s'. map score (players s')) (calculate_result (vote_table a b c))
     = Inr (map (gain (iter (players (vote_table a b c)))
                   ((seat 0 VOTE_SYNC [10, 20] (Some 10) (Some (- 1)))\<lparr>has_turn := True\<rparr>))
              (players (vote_table a b c)))"
  if "calculate_result (vote_table a b c)
           = Inr ((vote_table a b c)\<lparr>players := map (\<lambda>p. if valid p
                      then p\<lparr>score := score p + gain (iter (players (vote_table a b c)))
                         ((seat 0 VOTE_SYNC [10, 20] (Some 10) (Some (- 1)))\<lparr>has_turn := True\<rparr>) p\<rparr>
                      else p) (players (vote_table a b c))\<rparr>)"
  unfolding that by (simp add: vote_table_players seat_def new_player_def)

theorem calculate_result_scores_witness:
  "map_sum id (\<lambda>s'. map score (players s')) (calculate_result (vote_table 10 11 11)) = Inr [4, 5, 0, 0]
   \<and> map_sum id (\<lambda>s'. map score (players s')) (calculate_result (vote_table 10 10 10)) = Inr [0, 3, 3, 3]
   \<and> map_sum id (\<lambda>s'. map score (players s')) (calculate_result (vote_table 12 11 11)) = Inr [0, 2, 1, 0]
   \<and> get_sync_state (vote_table 10 11 11) = Some VOTE_SYNC
   \<and> map_sum id (\<lambda>s'. map score (players s')) (global_operations fixed_rng (vote_table 10 11 11))
       = Inr [4, 5, 0, 0]"
proof -
  let ?story = "(seat 0 VOTE_SYNC [10, 20] (Some 10) (Some (- 1)))\<lparr>has_turn := True\<rparr>"
  have pre: "distinct (map number (players (vote_table a b c)))"
    "current_player (vote_table a b c) = Some 0"
    "?story \<in> set (iter (players (vote_table a b c)))" "number ?story = 0" for a b c
    by (simp_all add: vote_table_players iter_def seat_def new_player_def)
  note sc = vote_table_scores [OF calculate_result_scores [OF pre, THEN conjunct1]]
  have g: "map (gain (iter (players (vote_table a b c))) ?story) (players (vote_table a b c))
     = (let correct = (if a = 10 then 1 else 0) + (if b = 10 then 1 else 0) + (if c = 10 then 1 else 0);
            f = (\<lambda>k. (if a = k then 1 else 0) + (if b = k then 1 else 0) + (if c = k then 1 else 0))
        in if correct = (3::int) then [0, 3, 3, 3]
           else if correct > 0
                then [3 + f 10, (if a = 10 then 3 else 0) + f 11, (if b = 10 then 3 else 0) + f 12,
                      (if c = 10 then 3 else 0) + f 13]
                else [f 10, f 11, f 12, f 13])" for a b c
    by (simp add: vote_table_players iter_def seat_def new_player_def gain_def fooled_def Let_def)
  have sync: "get_sync_state (vote_table 10 11 11) = Some VOTE_SYNC"
    by (simp add: get_sync_state_def vote_table_players iter_def seat_def new_player_def)
  have ok: "verify ?story = Inr True"
    by (simp add: verify_def seat_def new_player_def new_connection_def)
  from calculate_result_scores [OF pre, THEN conjunct2, of 10 11 11 fixed_rng] sync ok
  obtain s' where s': "global_operations fixed_rng (vote_table 10 11 11) = Inr s'"
    "map score (players s')
       = map (\<lambda>p. if valid p then score p + gain (iter (players (vote_table 10 11 11))) ?story p
                  else score p) (players (vote_table 10 11 11))"
    by blast
  have "map (\<lambda>p. if valid p then score p + gain (iter (players (vote_table 10 11 11))) ?story p
                  else score p) (players (vote_table 10 11 11))
          = map (gain (iter (players (vote_table 10 11 11))) ?story) (players (vote_table 10 11 11))"
    by (simp add: vote_table_players seat_def new_player_def)
  with s' have "map_sum id (\<lambda>s'. map score (players s')) (global_operations fixed_rng (vote_table 10 11 11))
       = Inr (map (gain (iter (players (vote_table 10 11 11))) ?story) (players (vote_table 10 11 11)))"
    by simp
  then show ?thesis
    unfolding sc g using sync by (simp add: Let_def)
qed

subsection \<open>The end of a turn\<close>

lemma remove_played_eq:
  "remove_played cur cs = (case cur of None \<Rightarrow> cs | Some c \<Rightarrow> remove1 c cs)"
proof (cases cur)
  case None
  have "find (\<lambda>c. Some c = None) cs = None" by (induction cs) simp_all
  with None show ?thesis by (simp add: remove_played_def)
next
  case (Some c)
  have "find (\<lambda>x. x = c) cs = (if c \<in> set cs then Some c else None)"
    by (induction cs) auto
  with Some show ?thesis by (simp add: remove_played_def remove1_idem)
qed

lemma deal_one_ok:
  "len ps \<le> length deck \<Longrightarrow>
     \<exists>ps'. deal_one ps deck = Inr (ps', drop (len ps) deck) \<and> length ps' = length ps
       \<and> (\<forall>j < length ps. ps' ! j = (if valid (ps ! j)
                                       then (ps ! j)\<lparr>cards := cards (ps ! j) @ [deck ! len (take j ps)]\<rparr>
                                       else ps ! j))"
proof (induction ps arbitrary: deck)
  case Nil
  show ?case by (simp add: len_def iter_def)
next
  case (Cons p ps)
  show ?case
  proof (cases "valid p")
    case True
    with Cons.prems obtain c cs where deck: "deck = c # cs" and le: "len ps \<le> length cs"
      by (cases deck) (auto simp: len_def iter_def)
    from Cons.IH [OF le] obtain ps' where ps': "deal_one ps cs = Inr (ps', drop (len ps) cs)"
      "length ps' = length ps"
      "\<forall>j < length ps. ps' ! j = (if valid (ps ! j)
                                       then (ps ! j)\<lparr>cards := cards (ps ! j) @ [cs ! len (take j ps)]\<rparr>
                                       else ps ! j)"
      by blast
    let ?r = "p\<lparr>cards := cards p @ [c]\<rparr> # ps'"
    have a: "deal_one (p # ps) deck = Inr (?r, drop (len (p # ps)) deck)"
      using True deck ps'(1) by (simp add: len_def iter_def)
    have b: "?r ! j = (if valid ((p # ps) ! j)
                       then ((p # ps) ! j)\<lparr>cards := cards ((p # ps) ! j) @ [deck ! len (take j (p # ps))]\<rparr>
                       else (p # ps) ! j)" if "j < length (p # ps)" for j
    proof (cases j)
      case 0
      then show ?thesis using True deck by (simp add: len_def iter_def)
    next
      case (Suc j')
      with that have "j' < length ps" by simp
      with ps'(3) Suc True deck show ?thesis by (simp add: len_def iter_def)
    qed
    from a b ps'(2) show ?thesis by (intro exI [of _ ?r]) simp
  next
    case False
    with Cons.prems have le: "len ps \<le> length deck" by (simp add: len_def iter_def)
    from Cons.IH [OF le] obtain ps' where ps': "deal_one ps deck = Inr (ps', drop (len ps) deck)"
      "length ps' = length ps"
      "\<forall>j < length ps. ps' ! j = (if valid (ps ! j)
                                       then (ps ! j)\<lparr>cards := cards (ps ! j) @ [deck ! len (take j ps)]\<rparr>
                                       else ps ! j)"
      by blast
    have a: "deal_one (p # ps) deck = Inr (p # ps', drop (len (p # ps)) deck)"
      using False ps'(1) by (simp add: len_def iter_def)
    have b: "(p # ps') ! j = (if valid ((p # ps) ! j)
                       then ((p # ps) ! j)\<lparr>cards := cards ((p # ps) ! j) @ [deck ! len (take j (p # ps))]\<rparr>
                       else (p # ps) ! j)" if "j < length (p # ps)" for j
    proof (cases j)
      case 0
      then show ?thesis using False by simp
    next
      case (Suc j')
      with that have "j' < length ps" by simp
      with ps'(3) Suc False show ?thesis by (simp add: len_def iter_def)
    qed
    from a b ps'(2) show ?thesis by (intro exI [of _ "p # ps'"]) simp
  qed
qed

lemma deal_one_eq:
  assumes "len ps \<le> length deck"
  shows "deal_one ps deck
           = Inr (map (\<lambda>j. if valid (ps ! j)
                            then (ps ! j)\<lparr>cards := cards (ps ! j) @ [deck ! len (take j ps)]\<rparr>
                            else ps ! j) [0..<length ps],
                  drop (len ps) deck)"
proof -
  from deal_one_ok [OF assms] obtain ps' where ps': "deal_one ps deck = Inr (ps', drop (len ps) deck)"
    "length ps' = length ps"
    "\<forall>j < length ps. ps' ! j = (if valid (ps ! j)
                                       then (ps ! j)\<lparr>cards := cards (ps ! j) @ [deck ! len (take j ps)]\<rparr>
                                       else ps ! j)"
    by blast
  have "ps' = map (\<lambda>j. if valid (ps ! j)
                            then (ps ! j)\<lparr>cards := cards (ps ! j) @ [deck ! len (take j ps)]\<rparr>
                            else ps ! j) [0..<length ps]"
    using ps'(2,3) by (intro nth_equalityI) simp_all
  with ps'(1) show ?thesis by simp
qed

lemma sync_loop_Nil: "sync_loop None ps = Some st \<Longrightarrow> ps \<noteq> []"
  by (cases ps) simp_all

lemma storyteller_check_verified:
  assumes "case current_player s of None \<Rightarrow> True | Some cp \<Rightarrow> verify_ref cp (players s) = Inr True"
  shows "storyteller_check s = Inr s"
  using assms by (simp add: storyteller_check_def split: option.splits)

lemma len_valid: "len xs = length (filter (\<lambda>b. b) (map valid xs))"
  by (induction xs) (simp_all add: len_def iter_def)

lemma len_cong: "map valid xs = map valid ys \<Longrightarrow> len xs = len ys"
  by (simp only: len_valid)

lemma synchronized_nonempty: "get_sync_state s = Some st \<Longrightarrow> iter (players s) \<noteq> []"
  unfolding get_sync_state_def by (rule sync_loop_Nil)

lemma valid_replenished: "map valid (replenished s) = map valid (players s)"
proof -
  let ?ps1 = "map (\<lambda>p. if valid p then discard p else p) (players s)"
  have v1: "map valid ?ps1 = map valid (players s)" by (simp add: discard_def)
  have "map valid (map (\<lambda>j. if valid (?ps1 ! j)
                        then (?ps1 ! j)\<lparr>cards := cards (?ps1 ! j) @ [server_cards s ! len (take j ?ps1)]\<rparr>
                        else ?ps1 ! j) [0..<length ?ps1])
          = map (\<lambda>j. valid (?ps1 ! j)) [0..<length ?ps1]"
    by (intro nth_equalityI) simp_all
  also have "\<dots> = map valid (map (\<lambda>j. ?ps1 ! j) [0..<length ?ps1])"
    by (simp add: comp_def)
  also have "\<dots> = map valid ?ps1" by (simp only: map_nth)
  finally show ?thesis using v1 by (simp add: replenished_def Let_def)
qed

lemma sync_next_turn_eq:
  assumes "iter (players s) \<noteq> []"
  shows "sync_next_turn s = Inr (next_turn s)"
proof -
  let ?ps1 = "map (\<lambda>p. if valid p then discard p else p) (players s)"
  have ps1: "for_each (\<lambda>player. player\<lparr>cards := remove_played (current_card player) (cards player)\<rparr>)
               (players s) = ?ps1"
    by (simp add: for_each_def discard_def remove_played_eq)
  have v1: "map valid ?ps1 = map valid (players s)" by (simp add: discard_def)
  have l1: "len ?ps1 = len (players s)" by (rule len_cong [OF v1])
  let ?ps2 = "replenished s"
  let ?cs2 = "if enough_cards s then drop (len (players s)) (server_cards s) else server_cards s"
  have deal: "(if length (server_cards s) \<ge> len ?ps1 then deal_one ?ps1 (server_cards s)
               else Inr (?ps1, server_cards s)) = Inr (?ps2, ?cs2)"
  proof (cases "enough_cards s")
    case True
    then have "len ?ps1 \<le> length (server_cards s)" by (simp add: enough_cards_def l1)
    from deal_one_eq [OF this] True show ?thesis
      by (simp add: replenished_def Let_def l1 enough_cards_def)
  next
    case False
    then show ?thesis by (simp add: replenished_def Let_def l1 enough_cards_def)
  qed
  have v2: "map valid ?ps2 = map valid (players s)" by (rule valid_replenished)
  have "len ?ps2 = len (players s)" by (rule len_cong [OF v2])
  with assms have "iter ?ps2 \<noteq> []" unfolding len_def by (metis length_0_conv)
  then obtain first rest where fr: "iter ?ps2 = first # rest"
    by (cases "iter ?ps2") simp_all
  have end_game: "broadcast (lit ''END_GAME'') None ?ps2 = Inr (deliver (lit ''END_GAME'') ?ps2)"
    by (rule broadcast_plain) simp_all
  have fin: "for_each (\<lambda>player. player\<lparr>valid := False\<rparr>) (deliver (lit ''END_GAME'') ?ps2)
      = map (\<lambda>p. if valid p
                         then (if get_broadcast p then send_message (lit ''END_GAME'') p else p)\<lparr>valid := False\<rparr>
                         else p) ?ps2"
    by (simp add: for_each_def deliver_def send_message_def)
  show ?thesis
    unfolding sync_next_turn_def Let_def ps1 deal
    using fr by (simp add: end_game fin next_turn_def game_over_def del: lit_def)
      (simp add: for_each_def)
qed


lemma global_sync_next_turn:
  assumes "get_sync_state s = Some SYNC_NEXT_TURN"
    and "case current_player s of None \<Rightarrow> True | Some cp \<Rightarrow> verify_ref cp (players s) = Inr True"
  shows "global_operations rnd s = Inr (next_turn s)"
proof -
  have "iter (players s) \<noteq> []" by (rule synchronized_nonempty [OF assms(1)])
  from sync_next_turn_eq [OF this] storyteller_check_verified [OF assms(2)] assms(1)
  show ?thesis by (simp add: global_operations_def)
qed

text \<open>
  C4 (amended). When all valid players are synchronized on \<^verbatim>\<open>SYNC_NEXT_TURN\<close> and the
  storyteller, if there is one, verifies, the orchestrator removes each valid player's
  played card from that player's hand, deals one new card to every valid player if and
  only if the deck has at least as many cards as there are valid players, and then, if
  and only if the hand of the first valid player in join order is empty, queues
  \<^verbatim>\<open>END_GAME\<close> for the valid players that receive broadcasts and invalidates all players;
  otherwise it queues for every valid player its hand and sets it to \<^verbatim>\<open>TURN_SYNC\<close>.
\<close>

theorem sync_next_turn_step:
  assumes "get_sync_state s = Some SYNC_NEXT_TURN"
    and "case current_player s of None \<Rightarrow> True | Some cp \<Rightarrow> verify_ref cp (players s) = Inr True"
  shows "global_operations rnd s = Inr (next_turn s)
       \<and> (game_over s \<longrightarrow> len (players (next_turn s)) = 0)
       \<and> (\<not> game_over s \<longrightarrow>
            map valid (players (next_turn s)) = map valid (players s)
            \<and> list_all (\<lambda>p. state p = TURN_SYNC) (iter (players (next_turn s))))"
proof -
  have v2: "map valid (replenished s) = map valid (players s)" by (rule valid_replenished)
  have over: "len (players (next_turn s)) = 0" if "game_over s"
    using that by (simp add: next_turn_def len_def iter_def filter_empty_conv)
  have "map valid (map (\<lambda>p. if valid p then (send_message (cards_message p) p)\<lparr>state := TURN_SYNC\<rparr>
                         else p) (replenished s)) = map valid (replenished s)"
    by (simp add: send_message_def)
  moreover have "list_all (\<lambda>p. state p = TURN_SYNC)
      (iter (map (\<lambda>p. if valid p then (send_message (cards_message p) p)\<lparr>state := TURN_SYNC\<rparr>
                         else p) qs))" for qs
    by (induction qs) (simp_all add: iter_def send_message_def)
  ultimately have cont: "map valid (players (next_turn s)) = map valid (players s)
            \<and> list_all (\<lambda>p. state p = TURN_SYNC) (iter (players (next_turn s)))" if "\<not> game_over s"
    using that v2 by (simp add: next_turn_def)
  from global_sync_next_turn [OF assms] over cont show ?thesis by blast
qed

lemma next_table_pre:
  "get_sync_state (next_table h0 h1 deck) = Some SYNC_NEXT_TURN"
  "case current_player (next_table h0 h1 deck) of None \<Rightarrow> True
   | Some cp \<Rightarrow> verify_ref cp (players (next_table h0 h1 deck)) = Inr True"
  by (simp_all add: next_table_def table_def get_sync_state_def iter_def seat_def new_player_def
      verify_ref_def lookup_def verify_def new_connection_def)

lemma next_table_after:
  "map (\<lambda>p. (cards p, valid p, state p, buffer p)) (players (next_turn (next_table [1, 2] [5] [])))
     = [([2], True, TURN_SYNC, [lit ''CARDS 2'']), ([], True, TURN_SYNC, [lit ''CARDS ''])]"
  "map (\<lambda>p. (cards p, valid p, state p, buffer p)) (players (next_turn (next_table [1] [5, 6] [])))
     = [([], False, SYNC_NEXT_TURN, [lit ''END_GAME'']), ([6], False, SYNC_NEXT_TURN, [lit ''END_GAME''])]"
  "map (\<lambda>p. (cards p, valid p, state p, buffer p)) (players (next_turn (next_table [1] [5, 6] [7, 8, 9])))
     = [([7], True, TURN_SYNC, [lit ''CARDS 7'']), ([6, 8], True, TURN_SYNC, [lit ''CARDS 6,8''])]"
  "server_cards (next_turn (next_table [1] [5, 6] [7, 8, 9])) = [9]"
  by (simp_all add: next_turn_def game_over_def replenished_def enough_cards_def Let_def
      next_table_def table_def boot_def iter_def len_def seat_def new_player_def discard_def
      send_message_def cards_message_def str_int_def str_nat.simps digit_char_def)

theorem sync_next_turn_step_witness:
  "global_operations fixed_rng (next_table [1] [5, 6] []) = Inr (next_turn (next_table [1] [5, 6] []))
   \<and> map (\<lambda>p. (cards p, valid p, state p, buffer p)) (players (next_turn (next_table [1] [5, 6] [])))
       = [([], False, SYNC_NEXT_TURN, [lit ''END_GAME'']), ([6], False, SYNC_NEXT_TURN, [lit ''END_GAME''])]
   \<and> global_operations fixed_rng (next_table [1] [5, 6] [7, 8, 9])
       = Inr (next_turn (next_table [1] [5, 6] [7, 8, 9]))
   \<and> map (\<lambda>p. (cards p, valid p, state p, buffer p)) (players (next_turn (next_table [1] [5, 6] [7, 8, 9])))
       = [([7], True, TURN_SYNC, [lit ''CARDS 7'']), ([6, 8], True, TURN_SYNC, [lit ''CARDS 6,8''])]
   \<and> server_cards (next_turn (next_table [1] [5, 6] [7, 8, 9])) = [9]"
  using sync_next_turn_step [of "next_table [1] [5, 6] []" fixed_rng, OF next_table_pre]
    sync_next_turn_step [of "next_table [1] [5, 6] [7, 8, 9]" fixed_rng, OF next_table_pre]
    next_table_after
  by simp

text \<open>
  The hand of the second player is empty after its card is removed, the hand of the first
  is not: the game goes on, and the second player is sent an empty hand.
\<close>

theorem sync_next_turn_counterexample:
  "get_sync_state (next_table [1, 2] [5] []) = Some SYNC_NEXT_TURN
   \<and> map_sum id (\<lambda>s'. map (\<lambda>p. (cards p, valid p, state p, buffer p)) (players s'))
        (global_operations fixed_rng (next_table [1, 2] [5] []))
       = Inr [([2], True, TURN_SYNC, [lit ''CARDS 2'']), ([], True, TURN_SYNC, [lit ''CARDS ''])]"
  using global_sync_next_turn [of "next_table [1, 2] [5] []" fixed_rng, OF next_table_pre]
    next_table_pre(1) [of "[1, 2]" "[5]" "[]"] next_table_after(1)
  by simp

subsection \<open>The master\<close>

lemma ids_update:
  "number q = number (ps ! i) \<Longrightarrow> status q = status (ps ! i) \<Longrightarrow> ids (ps[i := q]) = ids ps"
proof (cases "i < length ps")
  case True
  assume "number q = number (ps ! i)" "status q = status (ps ! i)"
  with True have "(ids ps)[i := (number q, status q)] = ids ps"
    by (simp add: ids_def list_update_same_conv)
  then show ?thesis by (simp add: ids_def map_update)
next
  case False
  then have "ps[i := q] = ps" by (intro list_update_beyond leI)
  then show ?thesis by (simp only:)
qed

lemma ids_for_each:
  "(\<And>p. number (f p) = number p \<and> status (f p) = status p) \<Longrightarrow> ids (for_each f ps) = ids ps"
  by (simp add: ids_def for_each_def)

lemma ids_deliver: "ids (deliver d ps) = ids ps"
  by (simp add: deliver_def ids_for_each send_message_def)

lemma ids_broadcast: "broadcast d info ps = Inr ps' \<Longrightarrow> ids ps' = ids ps"
  by (auto simp: broadcast_def Let_def ids_deliver split: if_splits option.splits)

lemma same_roster_players:
  "ids ps = ids (players s) \<Longrightarrow> same_roster s (s\<lparr>players := ps\<rparr>)"
  by (simp add: same_roster_def)

lemma same_roster_refl: "same_roster s s"
  by (simp add: same_roster_def)

lemma invalidate_same:
  "ids (players (invalidate i s)) = ids (players s)"
  "have_master (invalidate i s) = have_master s"
  "seq_number (invalidate i s) = seq_number s"
  by (simp_all add: invalidate_def ids_update)

lemma handle_message_same:
  assumes "handle_message py i msg s = Inr s'"
  shows "same_roster s s'"
proof -
  let ?self = "players s ! i"
  from assms obtain c where c: "conn ?self = Some c"
    by (cases "conn ?self") (simp_all add: handle_message_def Let_def)
  note hm = assms [unfolded handle_message_def Let_def c option.case]
  consider "state ?self = VER_WAIT" | "state ?self = START_WAIT" | "state ?self = READY_WAIT"
    | "state ?self = WAIT_ASSOC" | "state ?self = WAIT_SELF_CARD" | "state ?self = WAIT_VOTE"
    | "state ?self = WAIT_NEXT_TURN"
    | "state ?self \<notin> {VER_WAIT, START_WAIT, READY_WAIT, WAIT_ASSOC, WAIT_SELF_CARD, WAIT_VOTE,
         WAIT_NEXT_TURN}"
    by blast
  then show ?thesis
  proof cases
    case 1
    with hm show ?thesis
      by (auto simp: invalidate_same same_roster_def ids_update dest!: ids_broadcast
          split: if_splits sum.splits)
  next
    case 2
    with hm show ?thesis
      by (auto simp: invalidate_same same_roster_def ids_update split: if_splits)
  next
    case 3
    with hm show ?thesis
      by (auto simp: invalidate_same same_roster_def ids_update split: if_splits)
  next
    case 4
    with hm show ?thesis
      by (auto simp: invalidate_same same_roster_def ids_update ids_for_each invalidate_def
          dest!: ids_broadcast split: if_splits sum.splits)
  next
    case 5
    with hm show ?thesis
      by (auto simp: invalidate_same same_roster_def ids_update dest!: ids_broadcast
          split: if_splits sum.splits)
  next
    case 6
    with hm show ?thesis
      by (auto simp: invalidate_same same_roster_def ids_update split: if_splits sum.splits)
  next
    case 7
    with hm show ?thesis
      by (auto simp: invalidate_same same_roster_def ids_update split: if_splits)
  next
    case 8
    with hm show ?thesis by (auto simp: invalidate_same same_roster_def)
  qed
qed

lemma same_roster_trans: "same_roster s s1 \<Longrightarrow> same_roster s1 s2 \<Longrightarrow> same_roster s s2"
  by (simp add: same_roster_def)

lemma handle_state_same:
  assumes "handle_state i s = Inr s'"
  shows "same_roster s s'"
proof -
  let ?self0 = "players s ! i"
  let ?self1 = "if state ?self0 = VER_CHECK
                then (send_message (version_message s ?self0) ?self0)\<lparr>state := VER_WAIT\<rparr>
                else ?self0"
  let ?self2 = "if state ?self1 = START_WAIT \<and> game_state s = GAME
                then ?self1\<lparr>state := BEGIN_SYNC\<rparr> else ?self1"
  let ?self3 = "if state ?self2 = VER_WAIT \<and> game_state s = GAME
                then ?self2\<lparr>valid := False\<rparr> else ?self2"
  have n3: "number ?self3 = number ?self0" "status ?self3 = status ?self0"
    by (simp_all add: send_message_def)
  then have ps3: "ids ((players s)[i := ?self3]) = ids (players s)"
    by (intro ids_update) simp_all
  have ps3': "ids ((players s)[i := ?self3, i := ?self3\<lparr>state := SELF_SYNC\<rparr>]) = ids (players s)"
    using n3 by (simp add: ids_update)
  from assms obtain ps4 where ps4: "ids ps4 = ids (players s)"
    and s': "s' = s\<lparr>players := (if state (ps4 ! i) = WAIT_VOTE \<and> has_turn (ps4 ! i)
                                  then ps4[i := (ps4 ! i)\<lparr>state := VOTE_SYNC\<rparr>] else ps4)\<rparr>"
    unfolding handle_state_def Let_def
    using ps3 ps3' by (auto split: sum.splits if_splits dest!: ids_broadcast)
  show ?thesis
    unfolding s' using ps4 by (simp add: same_roster_def ids_update)
qed

lemma ids_deal: "ids (fst (deal ps cs)) = ids ps"
  by (induction ps arbitrary: cs) (simp_all add: ids_def case_prod_unfold)

lemma begin_sync_same: "same_roster s (begin_sync rnd s)"
  by (simp add: begin_sync_def Let_def begin_game_def case_prod_unfold same_roster_def
      ids_for_each ids_deal send_message_def)

lemma ids_update_ref:
  "(\<And>p. number (f p) = number p \<and> status (f p) = status p) \<Longrightarrow> ids (update_ref n f ps) = ids ps"
  by (simp add: ids_def update_ref_def)

lemma calculate_result_same:
  assumes "calculate_result s = Inr s'"
  shows "same_roster s s'"
  using assms
  by (auto simp: calculate_result_def Let_def same_roster_def ids_for_each ids_update_ref
      add_score_def split: option.splits if_splits)

lemma turn_sync_same: "turn_sync s = Inr s' \<Longrightarrow> same_roster s s'"
  by (auto simp: turn_sync_def same_roster_def ids_for_each split: option.splits sum.splits
      dest!: ids_broadcast)

lemma self_sync_same: "self_sync rnd s = Inr s' \<Longrightarrow> same_roster s s'"
  by (auto simp: self_sync_def Let_def same_roster_def ids_for_each split: sum.splits
      dest!: ids_broadcast)

lemma vote_sync_same:
  assumes "vote_sync s = Inr s'"
  shows "same_roster s s'"
proof -
  from assms obtain s1 where s1: "calculate_result s = Inr s1"
    by (cases "calculate_result s") (simp_all add: vote_sync_def)
  from assms have "same_roster s1 s'"
    by (auto simp: vote_sync_def s1 same_roster_def ids_for_each
        split: option.splits sum.splits dest!: ids_broadcast)
  with calculate_result_same [OF s1] show ?thesis by (rule same_roster_trans)
qed

lemma ids_deal_one: "deal_one ps cs = Inr (ps', r) \<Longrightarrow> ids ps' = ids ps"
proof (induction ps arbitrary: cs ps' r)
  case Nil
  then show ?case by simp
next
  case (Cons p ps)
  then show ?case
    by (auto simp: ids_def split: if_splits list.splits sum.splits)
qed

lemma sync_next_turn_same:
  assumes "sync_next_turn s = Inr s'"
  shows "same_roster s s'"
proof -
  let ?ps1 = "for_each (\<lambda>player. player\<lparr>cards := remove_played (current_card player)
                                                       (cards player)\<rparr>) (players s)"
  have i1: "ids ?ps1 = ids (players s)" by (simp add: ids_for_each)
  from assms obtain ps2 cs2 where d: "(if length (server_cards s) \<ge> len ?ps1
        then deal_one ?ps1 (server_cards s) else Inr (?ps1, server_cards s)) = Inr (ps2, cs2)"
    unfolding sync_next_turn_def Let_def by (auto split: sum.splits)
  then have i2: "ids ps2 = ids (players s)"
    using i1 by (auto split: if_splits dest: ids_deal_one)
  from assms show ?thesis
    unfolding sync_next_turn_def Let_def d
    using i2 by (auto simp: same_roster_def ids_for_each send_message_def
        split: list.splits if_splits sum.splits dest!: ids_broadcast)
qed

lemma storyteller_check_same: "storyteller_check s = Inr s' \<Longrightarrow> same_roster s s'"
  by (auto simp: storyteller_check_def same_roster_def ids_for_each
      split: option.splits sum.splits if_splits)

lemma global_operations_same:
  assumes "global_operations rnd s = Inr s'"
  shows "same_roster s s'"
proof -
  from assms obtain s1 where s1: "storyteller_check s = Inr s1"
    by (cases "storyteller_check s") (simp_all add: global_operations_def)
  from assms have "same_roster s1 s'"
    unfolding global_operations_def s1 Let_def
    by (auto simp: begin_sync_same same_roster_refl split: if_splits
        dest: turn_sync_same self_sync_same vote_sync_same sync_next_turn_same)
  with storyteller_check_same [OF s1] show ?thesis by (rule same_roster_trans)
qed

lemma flush_same: "flush i s = Inr s' \<Longrightarrow> same_roster s s'"
  by (auto simp: flush_def Let_def same_roster_def ids_update split: option.splits list.splits)

lemma io_failure_same: "same_roster s (io_failure i s)"
  by (simp add: io_failure_def same_roster_def ids_update)

lemma console_same:
  "same_roster s (comm_start cmdline s)" "same_roster s (comm_end s)" "same_roster s (comm_stop s)"
  by (simp_all add: comm_start_def comm_end_def comm_stop_def same_roster_def ids_for_each)

lemma roster_inv_same: "roster_inv s \<Longrightarrow> same_roster s s' \<Longrightarrow> roster_inv s'"
  by (simp add: roster_inv_def same_roster_def)

lemma roster_inv_prepare: "roster_inv (prepare rn rl conf s0)"
  by (simp add: roster_inv_def prepare_def ids_def)

lemma ids_add_player:
  "ids (players (add_player sock s))
     = ids (players s) @ [(seq_number s, if have_master s then PLAYER else MASTER)]"
  by (simp add: add_player_def Let_def ids_def new_player_def)

lemma roster_inv_add:
  assumes "roster_inv s"
  shows "roster_inv (add_player sock s)"
proof -
  let ?xs = "ids (players s)"
  let ?n = "seq_number s"
  let ?r = "if have_master s then PLAYER else MASTER"
  from assms have hm: "have_master s \<longleftrightarrow> 0 < ?n" and d: "distinct (map fst ?xs)"
    and la: "list_all (\<lambda>x. fst x < ?n \<and> (snd x = MASTER \<longleftrightarrow> fst x = 0)) ?xs"
    by (simp_all add: roster_inv_def)
  from la have "\<forall>x \<in> set ?xs. fst x \<noteq> ?n" by (auto simp: list_all_iff)
  then have fresh: "?n \<notin> set (map fst ?xs)" by auto
  from la have la': "list_all (\<lambda>x. fst x < Suc ?n \<and> (snd x = MASTER \<longleftrightarrow> fst x = 0)) ?xs"
    by (auto simp: list_all_iff)
  have new: "?r = MASTER \<longleftrightarrow> ?n = 0" using hm by simp
  have a: "have_master (add_player sock s) \<longleftrightarrow> 0 < seq_number (add_player sock s)"
    by (simp add: add_player_def Let_def)
  have b: "distinct (map fst (ids (players (add_player sock s))))"
    unfolding ids_add_player using d fresh by simp
  have sn: "seq_number (add_player sock s) = Suc ?n" by (simp add: add_player_def Let_def)
  have c: "list_all (\<lambda>x. fst x < seq_number (add_player sock s) \<and> (snd x = MASTER \<longleftrightarrow> fst x = 0))
             (ids (players (add_player sock s)))"
    unfolding ids_add_player sn using la' new by simp
  from a b c show ?thesis unfolding roster_inv_def by blast
qed

lemma roster_inv_reject: "roster_inv s \<Longrightarrow> reject pr sock s = Inr s' \<Longrightarrow> roster_inv s'"
  by (auto simp: reject_def roster_inv_def split: if_splits)

lemma roster_inv_accept:
  "roster_inv s \<Longrightarrow> accept_connection pr sock s = Inr s' \<Longrightarrow> roster_inv s'"
  by (auto simp: accept_connection_def roster_inv_add split: if_splits dest: roster_inv_reject)

lemma distinct_remove_at: "distinct ys \<Longrightarrow> distinct (remove_at k ys)"
proof -
  assume d: "distinct ys"
  then have "distinct (take k ys @ drop k ys)" by simp
  then have "set (take k ys) \<inter> set (drop k ys) = {}" by (simp only: distinct_append)
  moreover have "set (drop (Suc k) ys) \<subseteq> set (drop k ys)"
    by (rule set_drop_subset_set_drop) simp
  ultimately have "set (take k ys) \<inter> set (drop (Suc k) ys) = {}" by blast
  with d show ?thesis by (simp add: remove_at_def)
qed

lemma list_all_remove_at: "list_all P xs \<Longrightarrow> list_all P (remove_at k xs)"
  by (auto simp: list_all_iff remove_at_def dest: in_set_takeD in_set_dropD)

lemma map_remove_at: "map f (remove_at k xs) = remove_at k (map f xs)"
  by (simp add: remove_at_def take_map drop_map)

lemma roster_inv_check:
  assumes "roster_inv s" and "check s = Inr s'"
  shows "roster_inv s'"
proof -
  from check_cases [OF assms(2)] show ?thesis
  proof
    assume "first_dead (players s) 0 = Inr None \<and> s' = s"
    with assms(1) show ?thesis by simp
  next
    assume "\<exists>k. first_dead (players s) 0 = Inr (Some k) \<and> s' = swept k s"
    then obtain k where s': "s' = swept k s" by blast
    have "ids (players s') = ids (remove_at k (players s))"
      by (simp add: s' swept_def Let_def ids_deliver)
    then have i: "ids (players s') = remove_at k (ids (players s))"
      by (simp add: ids_def map_remove_at)
    have hs: "have_master s' = have_master s" "seq_number s' = seq_number s"
      by (simp_all add: s' swept_def Let_def)
    from assms(1) have "distinct (map fst (ids (players s)))" by (simp add: roster_inv_def)
    then have "distinct (remove_at k (map fst (ids (players s))))" by (rule distinct_remove_at)
    then have d: "distinct (map fst (ids (players s')))" by (simp add: i map_remove_at)
    from assms(1) have "list_all (\<lambda>x. fst x < seq_number s \<and> (snd x = MASTER \<longleftrightarrow> fst x = 0))
        (ids (players s))" by (simp add: roster_inv_def)
    then have "list_all (\<lambda>x. fst x < seq_number s \<and> (snd x = MASTER \<longleftrightarrow> fst x = 0))
        (remove_at k (ids (players s)))" by (rule list_all_remove_at)
    with d assms(1) show ?thesis by (simp add: roster_inv_def i hs)
  qed
qed

lemma roster_inv_stop:
  assumes "roster_inv s" and "plist_stop s = Inr s'"
  shows "roster_inv s'"
proof -
  from assms(2) obtain tr where "s' = s\<lparr>players := [], sockets := Map.empty, wire := tr\<rparr>"
    by (auto simp: plist_stop_def split: sum.splits)
  with assms(1) show ?thesis by (simp add: roster_inv_def ids_def)
qed

lemma reachable_inv: "reachable s \<Longrightarrow> roster_inv s"
proof (induction rule: reachable.induct)
  case (session rn rl conf s0)
  show ?case by (rule roster_inv_prepare)
next
  case (accept s pr sock s')
  then show ?case using roster_inv_accept by blast
next
  case (message s i py msg s')
  then show ?case using handle_message_same roster_inv_same by blast
next
  case (auto_advance s i s')
  then show ?case using handle_state_same roster_inv_same by blast
next
  case (orchestrate s rnd s')
  then show ?case using global_operations_same roster_inv_same by blast
next
  case (sweep s s')
  then show ?case using roster_inv_check by blast
next
  case (flushed s i s')
  then show ?case using flush_same roster_inv_same by blast
next
  case (failure s i)
  then show ?case using io_failure_same roster_inv_same by blast
next
  case (console_start s cmdline)
  then show ?case using console_same(1) roster_inv_same by blast
next
  case (console_end s)
  then show ?case using console_same(2) roster_inv_same by blast
next
  case (console_stop s)
  then show ?case using console_same(3) roster_inv_same by blast
next
  case (closing s s')
  then show ?case using roster_inv_stop by blast
qed

lemma at_most_one:
  "distinct (map f xs) \<Longrightarrow> length (filter (\<lambda>x. f x = a) xs) \<le> 1"
proof (induction xs)
  case Nil
  show ?case by simp
next
  case (Cons x xs)
  show ?case
  proof (cases "f x = a")
    case True
    with Cons.prems have "\<forall>y \<in> set xs. f y \<noteq> a" by (metis distinct.simps(2) imageI list.simps(9) set_map)
    then have "filter (\<lambda>x. f x = a) xs = []" by (simp add: filter_empty_conv)
    with True show ?thesis by simp
  next
    case False
    with Cons show ?thesis by simp
  qed
qed

text \<open>
  C7. In every state that a session reaches, at most one player of the roster has status
  \<^verbatim>\<open>MASTER\<close>; a player of the roster is the master if and only if its number is 0, that
  is, it was the first that was added in this session; the numbers in the roster are
  different; and a player added now gets status \<^verbatim>\<open>MASTER\<close> if it is the first of the
  session and \<^verbatim>\<open>PLAYER\<close> otherwise, whether or not the master is still valid or in the
  roster.
\<close>

theorem one_master:
  assumes "reachable s"
  shows "length (filter (\<lambda>p. status p = MASTER) (players s)) \<le> 1
       \<and> list_all (\<lambda>p. status p = MASTER \<longleftrightarrow> number p = 0) (players s)
       \<and> distinct (map number (players s))
       \<and> players (add_player sock s)
           = players s @ [new_player sock (if seq_number s = 0 then MASTER else PLAYER)
                            (seq_number s)]"
proof -
  from reachable_inv [OF assms] have hm: "have_master s \<longleftrightarrow> 0 < seq_number s"
    and d: "distinct (map fst (ids (players s)))"
    and la: "list_all (\<lambda>x. fst x < seq_number s \<and> (snd x = MASTER \<longleftrightarrow> fst x = 0)) (ids (players s))"
    by (simp_all add: roster_inv_def)
  from d have dn: "distinct (map number (players s))" by (simp add: ids_def comp_def)
  from la have m: "list_all (\<lambda>p. status p = MASTER \<longleftrightarrow> number p = 0) (players s)"
    by (simp add: ids_def list_all_iff)
  then have "filter (\<lambda>p. status p = MASTER) (players s) = filter (\<lambda>p. number p = 0) (players s)"
    by (intro filter_cong refl) (simp add: list_all_iff)
  with at_most_one [OF dn, of 0]
  have one: "length (filter (\<lambda>p. status p = MASTER) (players s)) \<le> 1" by simp
  have "players (add_player sock s)
           = players s @ [new_player sock (if seq_number s = 0 then MASTER else PLAYER)
                            (seq_number s)]"
    using hm by (simp add: add_player_def Let_def)
  with one m dn show ?thesis by blast
qed

lemma seated_two_eq: "seated 2 = add_player 11 (add_player 10 boot)"
  by (simp add: seated_def upt_rec)

lemma accept_two:
  "accept_connection polite 10 boot = Inr (add_player 10 boot)"
  "accept_connection polite 11 (add_player 10 boot) = Inr (seated 2)"
  by (simp_all add: seated_two_eq accept_connection_def add_player_def Let_def boot_def len_def
      iter_def new_player_def)

lemma reachable_seated_two: "reachable (seated 2)"
proof -
  have "prepare (lit ''1'') (lit ''http://res'') None boot = boot" by (simp add: prepare_def boot_def)
  then have "reachable boot" by (metis reachable.session)
  then have "reachable (add_player 10 boot)" using accept_two(1) by (rule reachable.accept)
  then show ?thesis using accept_two(2) by (rule reachable.accept)
qed

lemma failed_players:
  "players (io_failure 0 (seated 2))
     = [(new_player 10 MASTER 0)\<lparr>conn := Some \<lparr>csock = 10, cstatus = False\<rparr>\<rparr>, new_player 11 PLAYER 1]"
  "sockets (io_failure 0 (seated 2)) = [10 \<mapsto> 0, 11 \<mapsto> 1]"
  by (simp_all add: io_failure_def seated_two_eq accept_connection_def add_player_def Let_def boot_def
      len_def iter_def new_player_def new_connection_def)

lemma reachable_orphaned: "reachable orphaned"
proof -
  have r: "reachable (io_failure 0 (seated 2))"
    using reachable_seated_two
    by (rule reachable.failure)
      (simp add: seated_two_eq accept_connection_def add_player_def Let_def boot_def len_def iter_def)
  have fd: "first_dead (players (io_failure 0 (seated 2))) 0 = Inr (Some 0)"
    by (simp add: failed_players verify_def new_player_def)
  have "\<exists>s'. check (io_failure 0 (seated 2)) = Inr s'"
    by (rule check_total) (simp add: failed_players new_player_def)
  then have "check (io_failure 0 (seated 2)) = Inr orphaned"
    unfolding orphaned_def using check_Some [OF fd] by blast
  with r show ?thesis by (rule reachable.sweep)
qed

theorem one_master_witness:
  "map (\<lambda>p. (number p, status p)) (players orphaned) = [(1, PLAYER)]
   \<and> length (filter (\<lambda>p. status p = MASTER) (players orphaned)) \<le> 1
   \<and> players (add_player 12 orphaned) = players orphaned @ [new_player 12 PLAYER 2]
   \<and> length (filter (\<lambda>p. status p = MASTER) (players (seated 2))) \<le> 1
   \<and> map (\<lambda>p. (number p, status p)) (players (seated 2)) = [(0, MASTER), (1, PLAYER)]"
proof -
  have seq: "seq_number orphaned = 2"
    by (simp add: orphaned_def swept_def Let_def io_failure_def seated_two_eq accept_connection_def
        add_player_def boot_def len_def iter_def)
  have pl: "map (\<lambda>p. (number p, status p)) (players orphaned) = [(1, PLAYER)]"
    by (simp add: orphaned_def swept_def Let_def failed_players remove_at_def new_player_def)
  have two: "map (\<lambda>p. (number p, status p)) (players (seated 2)) = [(0, MASTER), (1, PLAYER)]"
    by (simp add: seated_two_eq accept_connection_def add_player_def Let_def boot_def len_def
        iter_def new_player_def)
  from one_master [OF reachable_orphaned, of 12] one_master [OF reachable_seated_two, of 12] seq pl two
  show ?thesis by simp
qed

subsection \<open>A malformed clue\<close>

lemma is_clue_code:
  "is_clue py msg \<longleftrightarrow>
     \<not> (length (str_split msg) < 3 \<or> str_split msg ! 0 \<noteq> lit ''TURN''
        \<or> \<not> isnumeric py (str_split msg ! 1))"
  by (auto simp: is_clue_def split: list.splits)

lemma state_for_each_TURN_SYNC:
  "list_all (\<lambda>p. state p = TURN_SYNC) (iter (for_each (\<lambda>player. player\<lparr>state := TURN_SYNC\<rparr>) ps))"
  by (induction ps) (simp_all add: iter_def for_each_def)

lemma for_each_fixed: "(\<And>p. p \<in> set ps \<Longrightarrow> valid p \<Longrightarrow> body p = p) \<Longrightarrow> for_each body ps = ps"
  unfolding for_each_def by (induction ps) simp_all

lemma sync_loop_all: "list_all (\<lambda>p. state p = st) ps \<Longrightarrow> sync_loop (Some st) ps = Some st"
  by (induction ps) simp_all

lemma sync_loop_same:
  "ps \<noteq> [] \<Longrightarrow> list_all (\<lambda>p. state p = st) ps \<Longrightarrow> sync_loop None ps = Some st"
  by (cases ps) (simp_all add: sync_loop_all)

lemma index_of_at:
  "distinct (map number ps) \<Longrightarrow> i < length ps \<Longrightarrow> index_of (Some (number (ps ! i))) ps k = k + i"
proof (induction ps arbitrary: i k)
  case Nil
  then show ?case by simp
next
  case (Cons p ps)
  show ?case
  proof (cases i)
    case 0
    then show ?thesis by simp
  next
    case (Suc j)
    with Cons.prems have j: "j < length ps" and d: "distinct (map number ps)"
      and "number p \<notin> number ` set ps" by simp_all
    then have "number (ps ! j) \<noteq> number p" by (metis imageI nth_mem)
    with Cons.IH [OF d j, of "Suc k"] Suc show ?thesis by simp
  qed
qed

lemma lookup_at:
  "distinct (map number ps) \<Longrightarrow> i < length ps \<Longrightarrow> lookup (number (ps ! i)) ps = Some (ps ! i)"
proof (induction ps arbitrary: i)
  case Nil
  then show ?case by simp
next
  case (Cons p ps)
  show ?case
  proof (cases i)
    case 0
    then show ?thesis by (simp add: lookup_def)
  next
    case (Suc j)
    with Cons.prems have j: "j < length ps" and d: "distinct (map number ps)"
      and "number p \<notin> number ` set ps" by simp_all
    then have "number (ps ! j) \<noteq> number p" by (metis imageI nth_mem)
    with Cons.IH [OF d j] Suc show ?thesis by (simp add: lookup_def)
  qed
qed

text \<open>
  The while loop of \<^verbatim>\<open>next_player\<close> returns the first valid player after the position it
  starts from, going round the roster.
\<close>

lemma probe_finds:
  "p < length ps \<Longrightarrow> 1 \<le> d \<Longrightarrow> d \<le> fuel \<Longrightarrow> valid (ps ! ((p + d) mod length ps))
   \<Longrightarrow> (\<And>e. 1 \<le> e \<Longrightarrow> e < d \<Longrightarrow> \<not> valid (ps ! ((p + e) mod length ps)))
   \<Longrightarrow> probe fuel ps p = Some (number (ps ! ((p + d) mod length ps)))"
proof (induction fuel arbitrary: p d)
  case 0
  then show ?case by simp
next
  case (Suc left)
  define j where "j = (if p + 1 \<ge> length ps then 0 else p + 1)"
  have j: "j = (p + 1) mod length ps"
  proof (cases "p + 1 \<ge> length ps")
    case True
    with Suc.prems(1) have "p + 1 = length ps" by simp
    then show ?thesis by (simp add: j_def)
  next
    case False
    then show ?thesis by (simp add: j_def)
  qed
  have jl: "j < length ps" using Suc.prems(1) by (cases ps) (simp_all add: j_def)
  have shift: "(j + e) mod length ps = (p + Suc e) mod length ps" for e
    unfolding j by (simp add: mod_add_left_eq)
  have step: "probe (Suc left) ps p
                = (if valid (ps ! j) then Some (number (ps ! j)) else probe left ps j)"
    by (simp add: j_def Let_def)
  show ?case
  proof (cases "d = 1")
    case True
    with Suc.prems(4) j step show ?thesis by simp
  next
    case False
    with Suc.prems(2,3) have d: "1 \<le> d - 1" "d - 1 \<le> left" by simp_all
    from Suc.prems(2) have d1: "Suc (d - 1) = d" by simp
    have "\<not> valid (ps ! ((p + 1) mod length ps))"
      using Suc.prems(5) [of 1] False Suc.prems(2) by simp
    then have nv: "\<not> valid (ps ! j)" by (simp add: j)
    have "probe left ps j = Some (number (ps ! ((j + (d - 1)) mod length ps)))"
    proof (rule Suc.IH [OF jl d])
      show "valid (ps ! ((j + (d - 1)) mod length ps))"
        using Suc.prems(4) by (simp only: shift d1)
      show "\<not> valid (ps ! ((j + e) mod length ps))" if "1 \<le> e" "e < d - 1" for e
        using Suc.prems(5) [of "Suc e"] that by (simp only: shift) simp
    qed
    with nv step show ?thesis by (simp only: shift d1) simp
  qed
qed

lemma next_player_finds:
  assumes "distinct (map number ps)" and "i < length ps" and "k < length ps" and "valid (ps ! k)"
  shows "\<exists>m < length ps. valid (ps ! m) \<and> next_player (Some (number (ps ! i))) ps = Some (number (ps ! m))"
proof -
  let ?L = "length ps"
  let ?P = "\<lambda>d. 1 \<le> d \<and> valid (ps ! ((i + d) mod ?L))"
  define d0 where "d0 = (if i < k then k - i else k + ?L - i)"
  have d0: "1 \<le> d0" "d0 \<le> ?L" using assms(2,3) by (auto simp: d0_def)
  have "(i + d0) mod ?L = k"
  proof (cases "i < k")
    case True
    then show ?thesis using assms(3) by (simp add: d0_def)
  next
    case False
    then have "i + d0 = k + ?L" using assms(2) by (simp add: d0_def)
    then show ?thesis using assms(3) by simp
  qed
  with assms(4) d0 have P0: "?P d0" by simp
  define d where "d = (LEAST d. ?P d)"
  have Pd: "?P d" unfolding d_def using P0 by (rule LeastI)
  have dle: "d \<le> d0" unfolding d_def using P0 by (rule Least_le)
  have least: "\<not> ?P e" if "e < d" for e using that unfolding d_def by (rule not_less_Least)
  have "probe (?L * 2) ps i = Some (number (ps ! ((i + d) mod ?L)))"
  proof (rule probe_finds [OF assms(2)])
    show "1 \<le> d" using Pd by simp
    show "d \<le> ?L * 2" using dle d0 by simp
    show "valid (ps ! ((i + d) mod ?L))" using Pd by simp
    show "\<not> valid (ps ! ((i + e) mod ?L))" if "1 \<le> e" "e < d" for e
      using least [OF that(2)] that(1) by simp
  qed
  moreover have "(i + d) mod ?L < ?L" using assms(2) by (cases ps) simp_all
  ultimately show ?thesis
    using Pd index_of_at [OF assms(1,2), of 0] by (auto simp: next_player_def)
qed

lemma handle_state_idle:
  assumes "j < length (players s)" and "state (players s ! j) = TURN_SYNC"
  shows "handle_state j s = Inr s"
  using assms by (simp add: handle_state_def Let_def)

lemma turn_sync_round:
  assumes "next_player (current_player s) (players s) = Some n"
  shows "turn_sync s = Inr (new_round n s)"
proof -
  have "broadcast (lit ''TURN '' @ str_nat n) None ps = Inr (deliver (lit ''TURN '' @ str_nat n) ps)" for ps
    by (rule broadcast_plain) simp_all
  then show ?thesis
    using assms
    by (simp add: turn_sync_def new_round_def deliver_def for_each_def Let_def comp_def del: lit_def)
qed

text \<open>
  The orchestrator on a session whose storyteller \<open>i\<close> is invalid and whose valid players
  are all in \<^verbatim>\<open>TURN_SYNC\<close>: a valid player becomes the storyteller of a new round.
\<close>

lemma restart:
  assumes "distinct (map number (players s))" and "i < length (players s)"
    and "current_player s = Some (number (players s ! i))" and "\<not> valid (players s ! i)"
    and "list_all (\<lambda>p. state p = TURN_SYNC) (iter (players s))" and "iter (players s) \<noteq> []"
  shows "\<exists>n \<in> number ` set (iter (players s)).
           next_player (current_player s) (players s) = Some n
           \<and> global_operations rnd s = Inr (new_round n s)"
proof -
  have "lookup (number (players s ! i)) (players s) = Some (players s ! i)"
    using assms(1,2) by (rule lookup_at)
  then have vr: "verify_ref (number (players s ! i)) (players s) = Inr False"
    using assms(4) by (simp add: verify_ref_def verify_def)
  have "for_each (\<lambda>player. player\<lparr>state := TURN_SYNC\<rparr>) (players s) = players s"
  proof (rule for_each_fixed)
    fix p assume "p \<in> set (players s)" "valid p"
    then have "p \<in> set (iter (players s))" by (simp add: iter_def)
    with assms(5) have "state p = TURN_SYNC" by (simp add: list_all_iff)
    then show "p\<lparr>state := TURN_SYNC\<rparr> = p" by simp
  qed
  with vr assms(3) have sc: "storyteller_check s = Inr s" by (simp add: storyteller_check_def)
  have gs: "get_sync_state s = Some TURN_SYNC"
    unfolding get_sync_state_def using assms(6,5) by (rule sync_loop_same)
  from assms(6) obtain q qs where "iter (players s) = q # qs"
    by (cases "iter (players s)") simp_all
  then have "q \<in> set (iter (players s))" by simp
  then have "q \<in> set (players s)" "valid q" by (simp_all add: iter_def)
  then obtain k where k: "k < length (players s)" "valid (players s ! k)"
    by (metis in_set_conv_nth)
  from next_player_finds [OF assms(1,2) k]
  obtain m where m: "m < length (players s)" "valid (players s ! m)"
    "next_player (Some (number (players s ! i))) (players s) = Some (number (players s ! m))"
    by blast
  from m(1,2) have "players s ! m \<in> set (iter (players s))" by (simp add: iter_def)
  then have mem: "number (players s ! m) \<in> number ` set (iter (players s))" by (rule imageI)
  have "turn_sync s = Inr (new_round (number (players s ! m)) s)"
    using m(3) assms(3) by (intro turn_sync_round) simp
  with sc gs have "global_operations rnd s = Inr (new_round (number (players s ! m)) s)"
    by (simp add: global_operations_def)
  with mem m(3) assms(3) show ?thesis by (intro bexI [of _ "number (players s ! m)"]) simp_all
qed

lemma iter_new_round:
  "iter (players (new_round n s))
     = map (\<lambda>p. let q = p\<lparr>has_turn := (number p = n), state := WAIT_ASSOC\<rparr>
                in if get_broadcast q then send_message (lit ''TURN '' @ str_nat n) q else q)
           (iter (players s))"
  unfolding new_round_def iter_def
  by (induction "players s" arbitrary: s) (simp_all add: filter_map comp_def send_message_def Let_def)

lemma nobody_left:
  assumes "iter (players s) = []"
  shows "global_operations rnd s = Inr s"
proof -
  from assms have none: "\<not> valid p" if "p \<in> set (players s)" for p
    using that by (auto simp: iter_def filter_empty_conv)
  have fe: "for_each (\<lambda>player. player\<lparr>state := TURN_SYNC\<rparr>) (players s) = players s"
    by (rule for_each_fixed) (simp add: none)
  have "verify_ref cp (players s) = Inr False" for cp
  proof (cases "lookup cp (players s)")
    case None
    then show ?thesis by (simp add: verify_ref_def)
  next
    case (Some p)
    then have "p \<in> set (players s)" unfolding lookup_def by (auto simp: find_Some_iff)
    with Some none show ?thesis by (simp add: verify_ref_def verify_def)
  qed
  with fe have "storyteller_check s = Inr s"
    by (simp add: storyteller_check_def split: option.splits)
  then show ?thesis using assms by (simp add: global_operations_def get_sync_state_def)
qed

text \<open>
  C5. When the player that holds the turn is in state \<^verbatim>\<open>WAIT_ASSOC\<close> and its message is not
  a clue (fewer than 3 tokens, another keyword, or a card id that is not numeric), the
  message is handled without an error, the sender is invalidated and keeps its state,
  every player that is still valid is set to \<^verbatim>\<open>TURN_SYNC\<close>, and nothing else of the
  session changes; the phase in particular stays as it is. If the sender is the
  storyteller of a game in progress, then: when a valid player is left, the session does
  not end, the players' automatic steps change nothing, and the orchestrator starts a
  new round with the valid player that \<^verbatim>\<open>next_player\<close> finds after the sender as the
  storyteller; when none is left, the orchestrator changes nothing and the session ends.
\<close>

theorem malformed_clue_resets_round:
  assumes "i < length (players s)"
    and "state (players s ! i) = WAIT_ASSOC" and "has_turn (players s ! i)"
    and "conn (players s ! i) \<noteq> None"
    and "\<not> is_clue py msg"
  shows "\<exists>s'. handle_message py i msg s = Inr s'
           \<and> s' = s\<lparr>players := players s'\<rparr>
           \<and> game_state s' = game_state s
           \<and> players s' = map (\<lambda>p. if valid p then p\<lparr>state := TURN_SYNC\<rparr> else p)
                             ((players s)[i := (players s ! i)\<lparr>valid := False\<rparr>])
           \<and> players s' ! i = (players s ! i)\<lparr>valid := False\<rparr>
           \<and> list_all (\<lambda>p. state p = TURN_SYNC) (iter (players s'))
           \<and> iter (players s') = map (\<lambda>p. p\<lparr>state := TURN_SYNC\<rparr>)
                                    (iter ((players s)[i := (players s ! i)\<lparr>valid := False\<rparr>]))
           \<and> (game_state s = GAME \<and> current_player s = Some (number (players s ! i))
                \<and> distinct (map number (players s)) \<longrightarrow>
                (if iter (players s') = []
                 then global_operations rnd s' = Inr s' \<and> session_ends s'
                 else \<not> session_ends s'
                    \<and> (\<forall>j < length (players s'). valid (players s' ! j) \<longrightarrow> handle_state j s' = Inr s')
                    \<and> (\<exists>n \<in> number ` set (iter (players s')).
                          next_player (current_player s') (players s') = Some n
                          \<and> global_operations rnd s' = Inr (new_round n s')
                          \<and> \<not> session_ends (new_round n s')
                          \<and> list_all (\<lambda>p. state p = WAIT_ASSOC \<and> (has_turn p \<longleftrightarrow> number p = n))
                                (iter (players (new_round n s'))))))"
proof -
  let ?ps = "(players s)[i := (players s ! i)\<lparr>valid := False\<rparr>]"
  define s' where "s' = s\<lparr>players := for_each (\<lambda>player. player\<lparr>state := TURN_SYNC\<rparr>) ?ps\<rparr>"
  from assms(5) have bad: "length (str_split msg) < 3 \<or> str_split msg ! 0 \<noteq> lit ''TURN''
      \<or> \<not> isnumeric py (str_split msg ! 1)"
    by (simp add: is_clue_code)
  from assms(4) obtain c where c: "conn (players s ! i) = Some c" by blast
  have c1: "handle_message py i msg s = Inr s'"
    unfolding handle_message_def Let_def c option.case s'_def
    using assms(2,3) bad by (simp add: invalidate_def)
  have c2: "s' = s\<lparr>players := players s'\<rparr>" by (simp add: s'_def)
  have c3: "game_state s' = game_state s" by (simp add: s'_def)
  have c4: "players s' = map (\<lambda>p. if valid p then p\<lparr>state := TURN_SYNC\<rparr> else p) ?ps"
    by (simp add: s'_def for_each_def)
  have c5: "players s' ! i = (players s ! i)\<lparr>valid := False\<rparr>"
    using assms(1) by (simp add: s'_def for_each_def)
  have c6: "list_all (\<lambda>p. state p = TURN_SYNC) (iter (players s'))"
    using state_for_each_TURN_SYNC [of ?ps] by (simp add: s'_def)
  have "iter (for_each (\<lambda>player. player\<lparr>state := TURN_SYNC\<rparr>) qs)
          = map (\<lambda>p. p\<lparr>state := TURN_SYNC\<rparr>) (iter qs)" for qs
    by (induction qs) (simp_all add: iter_def for_each_def)
  then have c7: "iter (players s') = map (\<lambda>p. p\<lparr>state := TURN_SYNC\<rparr>) (iter ?ps)"
    by (simp add: s'_def)
  have len': "length (players s') = length (players s)" by (simp add: c4)
  have numbers: "map number (players s') = map number (players s)"
  proof (rule nth_equalityI)
    show "length (map number (players s')) = length (map number (players s))" by (simp add: len')
    fix j assume "j < length (map number (players s'))"
    then have j: "j < length (players s)" by (simp add: len')
    then show "map number (players s') ! j = map number (players s) ! j"
      by (cases "j = i") (simp_all add: c4)
  qed
  have c8: "game_state s = GAME \<and> current_player s = Some (number (players s ! i))
                \<and> distinct (map number (players s)) \<longrightarrow>
                (if iter (players s') = []
                 then global_operations rnd s' = Inr s' \<and> session_ends s'
                 else \<not> session_ends s'
                    \<and> (\<forall>j < length (players s'). valid (players s' ! j) \<longrightarrow> handle_state j s' = Inr s')
                    \<and> (\<exists>n \<in> number ` set (iter (players s')).
                          next_player (current_player s') (players s') = Some n
                          \<and> global_operations rnd s' = Inr (new_round n s')
                          \<and> \<not> session_ends (new_round n s')
                          \<and> list_all (\<lambda>p. state p = WAIT_ASSOC \<and> (has_turn p \<longleftrightarrow> number p = n))
                                (iter (players (new_round n s')))))"
  proof (intro impI, elim conjE)
    assume game: "game_state s = GAME" and cur: "current_player s = Some (number (players s ! i))"
      and dist: "distinct (map number (players s))"
    from game c3 have game': "game_state s' = GAME" by simp
    show "if iter (players s') = []
                 then global_operations rnd s' = Inr s' \<and> session_ends s'
                 else \<not> session_ends s'
                    \<and> (\<forall>j < length (players s'). valid (players s' ! j) \<longrightarrow> handle_state j s' = Inr s')
                    \<and> (\<exists>n \<in> number ` set (iter (players s')).
                          next_player (current_player s') (players s') = Some n
                          \<and> global_operations rnd s' = Inr (new_round n s')
                          \<and> \<not> session_ends (new_round n s')
                          \<and> list_all (\<lambda>p. state p = WAIT_ASSOC \<and> (has_turn p \<longleftrightarrow> number p = n))
                                (iter (players (new_round n s'))))"
    proof (cases "iter (players s') = []")
      case True
      then have "len (players s') = 0" by (simp add: len_def)
      with game' have "session_ends s'" by (simp add: session_ends_def)
      with True nobody_left [OF True, of rnd] show ?thesis by simp
    next
      case False
      then have pos: "len (players s') \<noteq> 0" by (simp add: len_def)
      with game' have e1: "\<not> session_ends s'" by (simp add: session_ends_def)
      have e2: "\<forall>j < length (players s'). valid (players s' ! j) \<longrightarrow> handle_state j s' = Inr s'"
      proof (intro allI impI)
        fix j assume j: "j < length (players s')" and v: "valid (players s' ! j)"
        from j v have "players s' ! j \<in> set (iter (players s'))" by (simp add: iter_def)
        with c6 have "state (players s' ! j) = TURN_SYNC" by (simp add: list_all_iff)
        with j show "handle_state j s' = Inr s'" by (rule handle_state_idle)
      qed
      have "\<exists>n \<in> number ` set (iter (players s')).
              next_player (current_player s') (players s') = Some n
              \<and> global_operations rnd s' = Inr (new_round n s')"
      proof (rule restart)
        show "distinct (map number (players s'))" using dist by (simp only: numbers)
        show "i < length (players s')" using assms(1) by (simp only: len')
        have "number (players s' ! i) = number (players s ! i)" by (simp only: c5) simp
        moreover have "current_player s' = current_player s" by (simp add: s'_def)
        ultimately show "current_player s' = Some (number (players s' ! i))" using cur by simp
        show "\<not> valid (players s' ! i)" by (simp only: c5) simp
        show "list_all (\<lambda>p. state p = TURN_SYNC) (iter (players s'))" by (rule c6)
        show "iter (players s') \<noteq> []" by (rule False)
      qed
      then obtain n where n: "n \<in> number ` set (iter (players s'))"
        "next_player (current_player s') (players s') = Some n"
        "global_operations rnd s' = Inr (new_round n s')" by blast
      have "length (iter (players (new_round n s'))) = length (iter (players s'))"
        by (simp only: iter_new_round length_map)
      moreover have "game_state (new_round n s') = GAME" using game' by (simp add: new_round_def)
      ultimately have r1: "\<not> session_ends (new_round n s')"
        using pos by (simp add: session_ends_def len_def)
      have r2: "list_all (\<lambda>p. state p = WAIT_ASSOC \<and> (has_turn p \<longleftrightarrow> number p = n))
                       (iter (players (new_round n s')))"
        by (simp only: iter_new_round) (auto simp: list_all_iff send_message_def Let_def)
      from n r1 r2 have e3: "\<exists>n \<in> number ` set (iter (players s')).
                          next_player (current_player s') (players s') = Some n
                          \<and> global_operations rnd s' = Inr (new_round n s')
                          \<and> \<not> session_ends (new_round n s')
                          \<and> list_all (\<lambda>p. state p = WAIT_ASSOC \<and> (has_turn p \<longleftrightarrow> number p = n))
                                (iter (players (new_round n s')))"
        by (intro bexI [of _ n] conjI)
      from False e1 e2 e3 show ?thesis by simp
    qed
  qed
  show ?thesis
    by (intro exI [of _ s'] conjI) (fact c1 c2 c3 c4 c5 c6 c7 c8)+
qed

lemma clue_split: "str_split (lit ''TURN x7 river'') = [lit ''TURN'', lit ''x7'', lit ''river'']"
  by (simp add: str_split_def isspace_def)

lemma clue_bad: "\<not> is_clue latin (lit ''TURN x7 river'')"
  unfolding is_clue_def clue_split by (simp add: isnumeric_def latin_def)

lemma clue_table_players:
  "players clue_table =
     [seat 0 WAIT_ASSOC [1, 2] None None,
      (seat 1 WAIT_ASSOC [3, 4] None None)\<lparr>has_turn := True\<rparr>,
      gone (seat 2 WAIT_VOTE [5] None None),
      seat 3 WAIT_ASSOC [6, 7] None None]"
  by (simp add: clue_table_def table_def)

lemma clue_out_players:
  "players clue_out =
     [seat 0 TURN_SYNC [1, 2] None None,
      gone ((seat 1 WAIT_ASSOC [3, 4] None None)\<lparr>has_turn := True\<rparr>),
      gone (seat 2 WAIT_VOTE [5] None None),
      seat 3 TURN_SYNC [6, 7] None None]"
  by (simp add: clue_out_def table_def)

lemma clue_out_next: "next_player (Some 1) (players clue_out) = Some 3"
  unfolding clue_out_players
  by (simp add: next_player_def seat_def gone_def new_player_def eval_nat_numeral Let_def)

lemma clue_out_round:
  "map (\<lambda>p. (number p, valid p, state p, has_turn p)) (players (new_round 3 clue_out))
     = [(0, True, WAIT_ASSOC, False), (1, False, WAIT_ASSOC, True), (2, False, WAIT_VOTE, False),
        (3, True, WAIT_ASSOC, True)]"
  unfolding new_round_def clue_out_players
  by (simp add: seat_def gone_def new_player_def send_message_def Let_def)

theorem malformed_clue_resets_round_witness:
  "\<not> is_clue latin (lit ''TURN x7 river'')
   \<and> map (\<lambda>p. (number p, valid p, state p, has_turn p)) (players clue_table)
       = [(0, True, WAIT_ASSOC, False), (1, True, WAIT_ASSOC, True), (2, False, WAIT_VOTE, False),
          (3, True, WAIT_ASSOC, False)]
   \<and> game_state clue_table = GAME \<and> current_player clue_table = Some 1
   \<and> handle_message latin 1 (lit ''TURN x7 river'') clue_table = Inr clue_out
   \<and> map (\<lambda>p. (number p, valid p, state p, has_turn p)) (players clue_out)
       = [(0, True, TURN_SYNC, False), (1, False, WAIT_ASSOC, True), (2, False, WAIT_VOTE, False),
          (3, True, TURN_SYNC, False)]
   \<and> game_state clue_out = GAME \<and> \<not> session_ends clue_out
   \<and> handle_state 0 clue_out = Inr clue_out \<and> handle_state 3 clue_out = Inr clue_out
   \<and> global_operations fixed_rng clue_out = Inr (new_round 3 clue_out)
   \<and> map (\<lambda>p. (number p, valid p, state p, has_turn p)) (players (new_round 3 clue_out))
       = [(0, True, WAIT_ASSOC, False), (1, False, WAIT_ASSOC, True), (2, False, WAIT_VOTE, False),
          (3, True, WAIT_ASSOC, True)]
   \<and> \<not> session_ends (new_round 3 clue_out)"
proof -
  let ?msg = "lit ''TURN x7 river''"
  have before: "map (\<lambda>p. (number p, valid p, state p, has_turn p)) (players clue_table)
       = [(0, True, WAIT_ASSOC, False), (1, True, WAIT_ASSOC, True), (2, False, WAIT_VOTE, False),
          (3, True, WAIT_ASSOC, False)]"
    by (simp add: clue_table_players seat_def gone_def new_player_def)
  have after: "map (\<lambda>p. (number p, valid p, state p, has_turn p)) (players clue_out)
       = [(0, True, TURN_SYNC, False), (1, False, WAIT_ASSOC, True), (2, False, WAIT_VOTE, False),
          (3, True, TURN_SYNC, False)]"
    by (simp add: clue_out_players seat_def gone_def new_player_def)
  have pre: "1 < length (players clue_table)" "state (players clue_table ! 1) = WAIT_ASSOC"
    "has_turn (players clue_table ! 1)" "conn (players clue_table ! 1) \<noteq> None"
    by (simp_all add: clue_table_players seat_def new_player_def)
  have game: "game_state clue_table = GAME" "current_player clue_table = Some 1"
    by (simp_all add: clue_table_def table_def)
  have story: "game_state clue_table = GAME
      \<and> current_player clue_table = Some (number (players clue_table ! 1))
      \<and> distinct (map number (players clue_table))"
    using game by (simp add: clue_table_players seat_def gone_def new_player_def)
  from malformed_clue_resets_round [OF pre clue_bad, of fixed_rng]
  obtain s' where hm: "handle_message latin 1 ?msg clue_table = Inr s'"
    and frame: "s' = clue_table\<lparr>players := players s'\<rparr>"
    and ps: "players s' = map (\<lambda>p. if valid p then p\<lparr>state := TURN_SYNC\<rparr> else p)
                             ((players clue_table)[1 := (players clue_table ! 1)\<lparr>valid := False\<rparr>])"
    and later: "game_state clue_table = GAME
      \<and> current_player clue_table = Some (number (players clue_table ! 1))
      \<and> distinct (map number (players clue_table)) \<longrightarrow>
         (if iter (players s') = []
          then global_operations fixed_rng s' = Inr s' \<and> session_ends s'
          else \<not> session_ends s'
             \<and> (\<forall>j < length (players s'). valid (players s' ! j) \<longrightarrow> handle_state j s' = Inr s')
             \<and> (\<exists>n \<in> number ` set (iter (players s')).
                   next_player (current_player s') (players s') = Some n
                   \<and> global_operations fixed_rng s' = Inr (new_round n s')
                   \<and> \<not> session_ends (new_round n s')
                   \<and> list_all (\<lambda>p. state p = WAIT_ASSOC \<and> (has_turn p \<longleftrightarrow> number p = n))
                         (iter (players (new_round n s')))))"
    by (elim exE conjE)
  have "players s' = players clue_out"
    unfolding ps clue_table_players clue_out_players by (simp add: seat_def gone_def new_player_def)
  then have "clue_table\<lparr>players := players s'\<rparr> = clue_out"
    by (simp add: clue_table_def clue_out_def table_def seat_def gone_def new_player_def)
  with frame have eq: "s' = clue_out" by simp
  have left: "iter (players clue_out) \<noteq> []"
    by (simp add: clue_out_players iter_def seat_def new_player_def)
  from later story left have alive: "\<not> session_ends clue_out"
    and idle: "\<forall>j < length (players clue_out). valid (players clue_out ! j)
                 \<longrightarrow> handle_state j clue_out = Inr clue_out"
    and round: "\<exists>n \<in> number ` set (iter (players clue_out)).
                   next_player (current_player clue_out) (players clue_out) = Some n
                   \<and> global_operations fixed_rng clue_out = Inr (new_round n clue_out)
                   \<and> \<not> session_ends (new_round n clue_out)
                   \<and> list_all (\<lambda>p. state p = WAIT_ASSOC \<and> (has_turn p \<longleftrightarrow> number p = n))
                         (iter (players (new_round n clue_out)))"
    unfolding eq by simp_all
  have cur: "current_player clue_out = Some 1" by (simp add: clue_out_def)
  from round obtain n where n: "next_player (current_player clue_out) (players clue_out) = Some n"
    "global_operations fixed_rng clue_out = Inr (new_round n clue_out)"
    "\<not> session_ends (new_round n clue_out)" by blast
  from n(1) have "n = 3" unfolding cur clue_out_next by simp
  with n have go: "global_operations fixed_rng clue_out = Inr (new_round 3 clue_out)"
    "\<not> session_ends (new_round 3 clue_out)" by simp_all
  have "valid (players clue_out ! 0)" "valid (players clue_out ! 3)"
    "0 < length (players clue_out)" "3 < length (players clue_out)"
    by (simp_all add: clue_out_players seat_def new_player_def)
  with idle have hs: "handle_state 0 clue_out = Inr clue_out" "handle_state 3 clue_out = Inr clue_out"
    by blast+
  have "game_state clue_out = GAME" by (simp add: clue_out_def table_def)
  with clue_bad before game hm eq after alive hs go clue_out_round show ?thesis by simp
qed

text \<open>
  The storyteller is the only player: after its malformed message no valid player is
  left, the orchestrator starts no round, the sweep removes the player, and the main
  loop leaves the session.
\<close>

lemma solo_step:
  "handle_message latin 0 (lit ''TURN x7 river'') solo_table = Inr solo_out"
  unfolding handle_message_def clue_split
  by (simp add: solo_table_def solo_out_def table_def seat_def gone_def new_player_def Let_def
      invalidate_def for_each_def isnumeric_def latin_def)

lemma solo_sweep: "check solo_out = Inr (swept 0 solo_out) \<and> players (swept 0 solo_out) = []"
  by (simp add: check_def swept_def solo_out_def table_def seat_def gone_def new_player_def
      verify_def push_buffer_def stop_def Let_def remove_at_def new_connection_def conn_close_def
      boot_def)

theorem malformed_clue_counterexample:
  "state (players solo_table ! 0) = WAIT_ASSOC \<and> has_turn (players solo_table ! 0)
   \<and> current_player solo_table = Some (number (players solo_table ! 0))
   \<and> \<not> is_clue latin (lit ''TURN x7 river'')
   \<and> \<not> session_ends solo_table
   \<and> handle_message latin 0 (lit ''TURN x7 river'') solo_table = Inr solo_out
   \<and> game_state solo_out = game_state solo_table
   \<and> iter (players solo_out) = []
   \<and> global_operations fixed_rng solo_out = Inr solo_out
   \<and> check solo_out = Inr (swept 0 solo_out)
   \<and> players (swept 0 solo_out) = []
   \<and> session_ends solo_out \<and> session_ends (swept 0 solo_out)"
proof -
  have none: "iter (players solo_out) = []"
    by (simp add: solo_out_def table_def iter_def gone_def)
  have "state (players solo_table ! 0) = WAIT_ASSOC \<and> has_turn (players solo_table ! 0)
     \<and> current_player solo_table = Some (number (players solo_table ! 0))
     \<and> \<not> session_ends solo_table"
    by (simp add: solo_table_def table_def seat_def new_player_def session_ends_def len_def
        iter_def boot_def)
  moreover have "game_state solo_out = game_state solo_table"
    by (simp add: solo_table_def solo_out_def table_def)
  moreover have "session_ends solo_out"
    using none by (simp add: session_ends_def len_def solo_out_def table_def boot_def)
  moreover have "session_ends (swept 0 solo_out)"
    using solo_sweep
    by (simp add: session_ends_def len_def iter_def swept_def Let_def solo_out_def table_def
        boot_def seat_def gone_def new_player_def)
  ultimately show ?thesis
    using clue_bad solo_step none nobody_left [OF none, of fixed_rng] solo_sweep by simp
qed

text \<open>
  Two messages with characters beyond ASCII: a card id that is numeric but not decimal
  (U+00B2) passes the test of \<^verbatim>\<open>isnumeric\<close>, and \<^verbatim>\<open>int\<close> raises; tokens separated by
  no-break spaces (U+00A0) are a clue like any other.
\<close>

lemma clue_superscript:
  "is_clue latin (lit ''TURN '' @ [178] @ lit '' river'')
   \<and> handle_message latin 1 (lit ''TURN '' @ [178] @ lit '' river'') clue_table = Inl ValueError"
proof -
  have sp: "str_split (lit ''TURN '' @ [178] @ lit '' river'') = [lit ''TURN'', [178], lit ''river'']"
    by (simp add: str_split_def isspace_def)
  have "is_clue latin (lit ''TURN '' @ [178] @ lit '' river'')"
    unfolding is_clue_def sp by (simp add: isnumeric_def latin_def)
  moreover have "handle_message latin 1 (lit ''TURN '' @ [178] @ lit '' river'') clue_table
                   = Inl ValueError"
    unfolding handle_message_def sp
    by (simp add: clue_table_players seat_def new_player_def Let_def isnumeric_def py_int_def
        latin_def)
  ultimately show ?thesis by simp
qed

lemma clue_no_break_space:
  "str_split (lit ''TURN'' @ [160] @ lit ''7'' @ [160] @ lit ''river'')
     = [lit ''TURN'', lit ''7'', lit ''river'']
   \<and> is_clue latin (lit ''TURN'' @ [160] @ lit ''7'' @ [160] @ lit ''river'')"
proof -
  have sp: "str_split (lit ''TURN'' @ [160] @ lit ''7'' @ [160] @ lit ''river'')
              = [lit ''TURN'', lit ''7'', lit ''river'']"
    by (simp add: str_split_def isspace_def)
  then show ?thesis unfolding is_clue_def sp by (simp add: isnumeric_def latin_def)
qed

end
